theory Spec2Isabelle
  imports Main "HOL-Library.Word"
begin

section \<open>Go values read and produced by package descriptor\<close>

text \<open>
  The package (src/descriptor/descriptor.go) converts between a reflective descriptor
  and the legacy pair of a GZIP'd serialized file descriptor and an index path. Two
  process-wide \<^verbatim>\<open>sync.Map\<close> caches memoize the work. The model is sequential: one
  call runs to its end before the next starts, and the caches are threaded through as
  an explicit state.
\<close>

type_synonym byte = "8 word"

text \<open>
  Addresses of byte buffers. The file-tree cache is keyed by \<^verbatim>\<open>&rawDesc[0]\<close>, so the
  identity of a buffer matters. \<open>Alloc n\<close> is the n-th buffer allocated by
  \<^verbatim>\<open>CompressGZIP\<close> inside \<^verbatim>\<open>deriveRawDescriptor\<close>; \<open>Extern n\<close> is a buffer owned
  by a caller (the embedded data of generated code).
\<close>

datatype addr = Extern nat | Alloc nat

text \<open>
  A \<^verbatim>\<open>[]byte\<close>: the nil slice, or a slice with the address of its element 0 and its
  contents. An empty non-nil slice is \<open>Slice a []\<close>.
\<close>

datatype bytes = nil_bytes | Slice addr "byte list"

text \<open>A \<^verbatim>\<open>[]int\<close>: \<open>None\<close> is the nil slice. Its identity plays no role in the code.\<close>

type_synonym ints = "int list option"

text \<open>
  A panic is a value: the run-time faults of indexing and slicing, and
  \<^verbatim>\<open>panic(err)\<close> with the error of a library call.
\<close>

datatype panic = IndexOutOfRange | SliceBoundsOutOfRange | PanicErr string

definition pbind :: "panic + 'a \<Rightarrow> ('a \<Rightarrow> panic + 'b) \<Rightarrow> panic + 'b" where
  "pbind r f = (case r of Inl p \<Rightarrow> Inl p | Inr v \<Rightarrow> f v)"

definition pmap :: "('a \<Rightarrow> 'b) \<Rightarrow> panic + 'a \<Rightarrow> panic + 'b" where
  "pmap f r = pbind r (\<lambda>v. Inr (f v))"

text \<open>\<^verbatim>\<open>xs[i]\<close> on a Go slice: a fault outside \<open>0 \<le> i < len(xs)\<close>.\<close>

definition index :: "'a list \<Rightarrow> int \<Rightarrow> panic + 'a" where
  "index xs i = (if 0 \<le> i \<and> i < int (length xs) then Inr (xs ! nat i) else Inl IndexOutOfRange)"

text \<open>\<^verbatim>\<open>xs[lo:hi]\<close> on a Go slice whose capacity is its length.\<close>

definition slice :: "'a list \<Rightarrow> int \<Rightarrow> int \<Rightarrow> panic + 'a list" where
  "slice xs lo hi =
     (if 0 \<le> lo \<and> lo \<le> hi \<and> hi \<le> int (length xs)
      then Inr (take (nat (hi - lo)) (drop (nat lo) xs))
      else Inl SliceBoundsOutOfRange)"

text \<open>\<^verbatim>\<open>&rawDesc[0]\<close>: the address of the first byte, a fault on a slice of length 0.\<close>

fun addr_of_first :: "bytes \<Rightarrow> panic + addr" where
  "addr_of_first nil_bytes = Inl IndexOutOfRange"
| "addr_of_first (Slice a bs) = (if bs = [] then Inl IndexOutOfRange else Inr a)"

fun contents :: "bytes \<Rightarrow> byte list" where
  "contents nil_bytes = []"
| "contents (Slice a bs) = bs"

subsection \<open>Reflective descriptors\<close>

text \<open>
  A \<^verbatim>\<open>protoreflect.Descriptor\<close>, as far as this package reads it: its identity (the
  key of the raw-descriptor cache), whether it is a \<^verbatim>\<open>protoreflect.FileDescriptor\<close>
  (the type assertion of the ascent), its \<^verbatim>\<open>Name()\<close>, its \<^verbatim>\<open>Index()\<close> and its
  \<^verbatim>\<open>Parent()\<close>, nil being \<open>None\<close>. Two descriptor objects are the same cache key
  exactly when they are the same object; \<open>ident\<close> tells objects apart.
\<close>

datatype kind = FileKind | MessageKind | EnumKind | OtherKind

datatype descriptor =
  Descriptor (ident: nat) (kind: kind) (Name: string) (Index: int) (Parent: "descriptor option")

subsection \<open>Descriptor protos\<close>

text \<open>
  The \<^verbatim>\<open>descriptorpb\<close> messages, with the fields this package reads: the name and
  the lists of nested declarations.
\<close>

datatype enum_descriptor_proto = EnumDecl (enum_name: string)

datatype descriptor_proto =
  MessageDecl (message_name: string) (NestedType: "descriptor_proto list")
    (NestedEnumType: "enum_descriptor_proto list")

datatype file_descriptor_proto =
  FileDecl (file_name: string) (MessageType: "descriptor_proto list")
    (EnumType: "enum_descriptor_proto list")

subsection \<open>Generated values\<close>

text \<open>
  A \<^verbatim>\<open>proto.GeneratedEnum\<close> or \<^verbatim>\<open>proto.GeneratedMessage\<close>. \<open>accessor\<close> is the
  result of the capability test: \<open>Some out\<close> when the value has the method
  \<^verbatim>\<open>EnumDescriptor()\<close> (enums) or \<^verbatim>\<open>Descriptor()\<close> (messages), with \<open>out\<close> what
  the method returns. \<open>value_id\<close> tells values apart for the type registry.
\<close>

record generated =
  value_id :: nat
  accessor :: "(bytes \<times> ints) option"

text \<open>
  The interface \<^verbatim>\<open>Message\<close> (line 32): a message that has the method
  \<^verbatim>\<open>Descriptor()\<close>. \<open>as_generated\<close> is the conversion to
  \<^verbatim>\<open>proto.GeneratedMessage\<close> at the call in \<^verbatim>\<open>ForMessage\<close>.
\<close>

record message =
  message_id :: nat
  Descriptor_method :: "bytes \<times> ints"

definition as_generated :: "message \<Rightarrow> generated" where
  "as_generated m = \<lparr>value_id = message_id m, accessor = Some (Descriptor_method m)\<rparr>"

subsection \<open>Library calls\<close>

text \<open>
  The functions of other modules that the package calls are parameters:
  \<^verbatim>\<open>protodesc.ToFileDescriptorProto\<close>, \<^verbatim>\<open>proto.Marshal\<close> (its error is dropped at
  line 83, so only the bytes count), \<^verbatim>\<open>protoimpl.X.CompressGZIP\<close>,
  \<^verbatim>\<open>gzip.NewReader\<close> (the reader is the byte stream it will read),
  \<^verbatim>\<open>ioutil.ReadAll\<close>, \<^verbatim>\<open>proto.Unmarshal\<close>, and the registry lookups
  \<^verbatim>\<open>protoimpl.X.EnumTypeOf(e).Descriptor()\<close> and
  \<^verbatim>\<open>protoimpl.X.MessageTypeOf(m).Descriptor()\<close>. Being HOL functions they are
  deterministic.
\<close>

record env =
  ToFileDescriptorProto :: "descriptor \<Rightarrow> file_descriptor_proto"
  Marshal :: "file_descriptor_proto \<Rightarrow> byte list"
  CompressGZIP :: "byte list \<Rightarrow> byte list"
  gzip_NewReader :: "byte list \<Rightarrow> string + byte list"
  ReadAll :: "byte list \<Rightarrow> string + byte list"
  Unmarshal :: "byte list \<Rightarrow> string + file_descriptor_proto"
  EnumTypeOf :: "generated \<Rightarrow> descriptor"
  MessageTypeOf :: "generated \<Rightarrow> descriptor"

section \<open>The caches\<close>

record rawDesc =
  fileDesc :: bytes
  indexes :: ints

text \<open>
  \<open>rawDescCache\<close> (line 54) and \<open>fileDescCache\<close> (line 119). \<open>next_alloc\<close> is the
  allocator: the number of the next buffer \<^verbatim>\<open>CompressGZIP\<close> returns.
\<close>

record state =
  rawDescCache :: "descriptor \<rightharpoonup> rawDesc"
  fileDescCache :: "addr \<rightharpoonup> file_descriptor_proto"
  next_alloc :: nat

definition init_state :: state where
  "init_state = \<lparr>rawDescCache = Map.empty, fileDescCache = Map.empty, next_alloc = 0\<rparr>"

text \<open>\<^verbatim>\<open>sync.Map.Load\<close> and \<^verbatim>\<open>sync.Map.LoadOrStore\<close>.\<close>

definition Load :: "('k \<rightharpoonup> 'v) \<Rightarrow> 'k \<Rightarrow> 'v option" where
  "Load m k = m k"

definition LoadOrStore :: "('k \<rightharpoonup> 'v) \<Rightarrow> 'k \<Rightarrow> 'v \<Rightarrow> ('v \<times> bool) \<times> ('k \<rightharpoonup> 'v)" where
  "LoadOrStore m k v = (case m k of Some a \<Rightarrow> ((a, True), m) | None \<Rightarrow> ((v, False), m(k \<mapsto> v)))"

section \<open>deriveRawDescriptor (lines 56-95)\<close>

text \<open>
  The ascent of lines 67-79: append the index, move to the parent, stop with no result
  at a nil parent and with the file at a file descriptor. The result is the collected
  indexes (leaf first) and the file.
\<close>

fun ascend :: "descriptor \<Rightarrow> int list \<Rightarrow> (int list \<times> descriptor) option" where
  "ascend (Descriptor i k n ix None) idxs = None"
| "ascend (Descriptor i k n ix (Some p)) idxs =
     (if kind p = FileKind then Some (idxs @ [ix], p) else ascend p (idxs @ [ix]))"

text \<open>The in-place reversal of lines 87-89, with Go's \<^verbatim>\<open>int\<close> counters.\<close>

function reverse_loop :: "int list \<Rightarrow> int \<Rightarrow> int \<Rightarrow> int list" where
  "reverse_loop idxs i j =
     (if i < j
      then reverse_loop (idxs[nat i := idxs ! nat j, nat j := idxs ! nat i]) (i + 1) (j - 1)
      else idxs)"
  by pat_completeness auto
termination
  by (relation "measure (\<lambda>(idxs, i, j). nat (j - i))") auto

declare reverse_loop.simps [simp del]

definition deriveRawDescriptor :: "env \<Rightarrow> descriptor \<Rightarrow> state \<Rightarrow> (bytes \<times> ints) \<times> state" where
  "deriveRawDescriptor env d s =
     (case Load (rawDescCache s) d of
        Some v \<Rightarrow> ((fileDesc v, indexes v), s)
      | None \<Rightarrow>
          (case ascend d [] of
             None \<Rightarrow> ((nil_bytes, None), s)
           | Some (idxs, fd) \<Rightarrow>
               (let b = Marshal env (ToFileDescriptorProto env fd);
                    file = Slice (Alloc (next_alloc s)) (CompressGZIP env b);
                    s1 = s\<lparr>next_alloc := Suc (next_alloc s)\<rparr>;
                    idxs' = reverse_loop idxs 0 (int (length idxs) - 1)
                in (case LoadOrStore (rawDescCache s1) d \<lparr>fileDesc = file, indexes = Some idxs'\<rparr> of
                      ((v, True), m) \<Rightarrow> ((fileDesc v, indexes v), s1)
                    | ((v, False), m) \<Rightarrow> ((file, Some idxs'), s1\<lparr>rawDescCache := m\<rparr>)))))"

section \<open>EnumRawDescriptor (lines 100-106) and MessageRawDescriptor (lines 111-117)\<close>

definition EnumRawDescriptor :: "env \<Rightarrow> generated \<Rightarrow> state \<Rightarrow> (bytes \<times> ints) \<times> state" where
  "EnumRawDescriptor env e s =
     (case accessor e of
        Some out \<Rightarrow> (out, s)
      | None \<Rightarrow> deriveRawDescriptor env (EnumTypeOf env e) s)"

definition MessageRawDescriptor :: "env \<Rightarrow> generated \<Rightarrow> state \<Rightarrow> (bytes \<times> ints) \<times> state" where
  "MessageRawDescriptor env m s =
     (case accessor m of
        Some out \<Rightarrow> (out, s)
      | None \<Rightarrow> deriveRawDescriptor env (MessageTypeOf env m) s)"

section \<open>deriveFileDescriptor (lines 121-144)\<close>

text \<open>Lines 128-139: decompress and parse, each error a panic.\<close>

definition decode :: "env \<Rightarrow> byte list \<Rightarrow> panic + file_descriptor_proto" where
  "decode env bs =
     (case gzip_NewReader env bs of
        Inl err \<Rightarrow> Inl (PanicErr err)
      | Inr zr \<Rightarrow>
          (case ReadAll env zr of
             Inl err \<Rightarrow> Inl (PanicErr err)
           | Inr b \<Rightarrow>
               (case Unmarshal env b of
                  Inl err \<Rightarrow> Inl (PanicErr err)
                | Inr fd \<Rightarrow> Inr fd)))"

text \<open>
  The state is returned on a panic too: what a call stored before it panicked stays
  in the caches.
\<close>

definition deriveFileDescriptor ::
  "env \<Rightarrow> bytes \<Rightarrow> state \<Rightarrow> (panic + file_descriptor_proto) \<times> state" where
  "deriveFileDescriptor env rawDesc s =
     (case addr_of_first rawDesc of
        Inl p \<Rightarrow> (Inl p, s)
      | Inr key \<Rightarrow>
          (case Load (fileDescCache s) key of
             Some v \<Rightarrow> (Inr v, s)
           | None \<Rightarrow>
               (case decode env (contents rawDesc) of
                  Inl p \<Rightarrow> (Inl p, s)
                | Inr fd \<Rightarrow>
                    (case LoadOrStore (fileDescCache s) key fd of
                       ((v, True), m) \<Rightarrow> (Inr v, s\<lparr>fileDescCache := m\<rparr>)
                     | ((v, False), m) \<Rightarrow> (Inr fd, s\<lparr>fileDescCache := m\<rparr>)))))"

section \<open>EnumDescriptorProto (lines 149-164) and MessageDescriptorProto (lines 169-180)\<close>

text \<open>The loops of lines 159-161 and 176-178: \<^verbatim>\<open>md = md.NestedType[i]\<close> for each index.\<close>

fun descend :: "descriptor_proto \<Rightarrow> int list \<Rightarrow> panic + descriptor_proto" where
  "descend md [] = Inr md"
| "descend md (i # is) = pbind (index (NestedType md) i) (\<lambda>md'. descend md' is)"

text \<open>Lines 155-163: the navigation of \<^verbatim>\<open>EnumDescriptorProto\<close> after the file is decoded.\<close>

definition locate_enum :: "file_descriptor_proto \<Rightarrow> int list \<Rightarrow> panic + enum_descriptor_proto" where
  "locate_enum fd idxs =
     (if length idxs = 1
      then pbind (index idxs 0) (\<lambda>i. index (EnumType fd) i)
      else
        pbind (index idxs 0) (\<lambda>i0.
        pbind (index (MessageType fd) i0) (\<lambda>md.
        pbind (slice idxs 1 (int (length idxs) - 1)) (\<lambda>mid.
        pbind (descend md mid) (\<lambda>md'.
        pbind (index idxs (int (length idxs) - 1)) (\<lambda>il.
        index (NestedEnumType md') il))))))"

text \<open>Lines 175-179: the navigation of \<^verbatim>\<open>MessageDescriptorProto\<close>.\<close>

definition locate_message :: "file_descriptor_proto \<Rightarrow> int list \<Rightarrow> panic + descriptor_proto" where
  "locate_message fd idxs =
     pbind (index idxs 0) (\<lambda>i0.
     pbind (index (MessageType fd) i0) (\<lambda>md.
     pbind (slice idxs 1 (int (length idxs))) (\<lambda>rest.
     descend md rest)))"

definition EnumDescriptorProto ::
  "env \<Rightarrow> generated \<Rightarrow> state \<Rightarrow>
   (panic + file_descriptor_proto option \<times> enum_descriptor_proto option) \<times> state" where
  "EnumDescriptorProto env e s =
     (case EnumRawDescriptor env e s of
        ((rawDesc, idxs), s1) \<Rightarrow>
          (case idxs of
             None \<Rightarrow> (Inr (None, None), s1)
           | Some ix \<Rightarrow>
               if rawDesc = nil_bytes then (Inr (None, None), s1)
               else
                 (case deriveFileDescriptor env rawDesc s1 of
                    (Inl p, s2) \<Rightarrow> (Inl p, s2)
                  | (Inr fd, s2) \<Rightarrow>
                      (case locate_enum fd ix of
                         Inl p \<Rightarrow> (Inl p, s2)
                       | Inr ed \<Rightarrow> (Inr (Some fd, Some ed), s2)))))"

definition MessageDescriptorProto ::
  "env \<Rightarrow> generated \<Rightarrow> state \<Rightarrow>
   (panic + file_descriptor_proto option \<times> descriptor_proto option) \<times> state" where
  "MessageDescriptorProto env m s =
     (case MessageRawDescriptor env m s of
        ((rawDesc, idxs), s1) \<Rightarrow>
          (case idxs of
             None \<Rightarrow> (Inr (None, None), s1)
           | Some ix \<Rightarrow>
               if rawDesc = nil_bytes then (Inr (None, None), s1)
               else
                 (case deriveFileDescriptor env rawDesc s1 of
                    (Inl p, s2) \<Rightarrow> (Inl p, s2)
                  | (Inr fd, s2) \<Rightarrow>
                      (case locate_message fd ix of
                         Inl p \<Rightarrow> (Inl p, s2)
                       | Inr md \<Rightarrow> (Inr (Some fd, Some md), s2)))))"

section \<open>ForMessage (lines 45-47)\<close>

definition ForMessage ::
  "env \<Rightarrow> message \<Rightarrow> state \<Rightarrow>
   (panic + file_descriptor_proto option \<times> descriptor_proto option) \<times> state" where
  "ForMessage env m s = MessageDescriptorProto env (as_generated m) s"

section \<open>The specification's words\<close>

text \<open>
  The root file of a descriptor: the first file descriptor on its parent chain, if the
  chain reaches one before it ends. The descriptor itself is not looked at: the
  ascent tests the parent only.
\<close>

fun root_file :: "descriptor \<Rightarrow> descriptor option" where
  "root_file (Descriptor i k n ix None) = None"
| "root_file (Descriptor i k n ix (Some p)) = (if kind p = FileKind then Some p else root_file p)"

text \<open>The \<^verbatim>\<open>Index()\<close> values from the leaf up to the child of the root file.\<close>

fun leaf_to_root :: "descriptor \<Rightarrow> int list" where
  "leaf_to_root (Descriptor i k n ix None) = [ix]"
| "leaf_to_root (Descriptor i k n ix (Some p)) =
     (if kind p = FileKind then [ix] else ix # leaf_to_root p)"

text \<open>
  The Index-Path Navigator as the specification words it (section 4.5). A path is its
  first index and the rest. With no rest, the index selects among the top-level
  declarations of the target kind. Otherwise the first index selects a top-level
  message, each intermediate index a nested message, and the final index a nested
  message or a nested enum of the last message reached.
\<close>

datatype target = TargetMessage | TargetEnum

datatype declared = MessageDeclaration descriptor_proto | EnumDeclaration enum_descriptor_proto

fun spec_top :: "target \<Rightarrow> file_descriptor_proto \<Rightarrow> int \<Rightarrow> panic + declared" where
  "spec_top TargetMessage fd i = pmap MessageDeclaration (index (MessageType fd) i)"
| "spec_top TargetEnum fd i = pmap EnumDeclaration (index (EnumType fd) i)"

fun spec_final :: "target \<Rightarrow> descriptor_proto \<Rightarrow> int \<Rightarrow> panic + declared" where
  "spec_final TargetMessage md i = pmap MessageDeclaration (index (NestedType md) i)"
| "spec_final TargetEnum md i = pmap EnumDeclaration (index (NestedEnumType md) i)"

fun spec_inner :: "target \<Rightarrow> descriptor_proto \<Rightarrow> int \<Rightarrow> int list \<Rightarrow> panic + declared" where
  "spec_inner t md i [] = spec_final t md i"
| "spec_inner t md i (j # js) = pbind (index (NestedType md) i) (\<lambda>md'. spec_inner t md' j js)"

fun spec_locate :: "target \<Rightarrow> file_descriptor_proto \<Rightarrow> int \<Rightarrow> int list \<Rightarrow> panic + declared" where
  "spec_locate t fd i [] = spec_top t fd i"
| "spec_locate t fd i (j # js) = pbind (index (MessageType fd) i) (\<lambda>md. spec_inner t md j js)"

text \<open>
  The place of a declaration. A descriptor has a positional index within its parent's
  ordered list of children of its own kind (section 3). \<open>message_decl_of env d\<close> is
  the message declaration at the place of \<open>d\<close> in the proto of its root file: the
  \<^verbatim>\<open>Index()\<close>-th top-level message when the parent is the file, the
  \<^verbatim>\<open>Index()\<close>-th nested message of the parent's declaration otherwise;
  \<open>enum_decl_of\<close> likewise for an enum.
\<close>

definition at :: "'a list \<Rightarrow> int \<Rightarrow> 'a option" where
  "at xs i = (case index xs i of Inl p \<Rightarrow> None | Inr x \<Rightarrow> Some x)"

fun message_decl_of :: "env \<Rightarrow> descriptor \<Rightarrow> descriptor_proto option" where
  "message_decl_of env (Descriptor i k n ix None) = None"
| "message_decl_of env (Descriptor i k n ix (Some p)) =
     (if kind p = FileKind then at (MessageType (ToFileDescriptorProto env p)) ix
      else (case message_decl_of env p of
              None \<Rightarrow> None
            | Some md \<Rightarrow> at (NestedType md) ix))"

fun enum_decl_of :: "env \<Rightarrow> descriptor \<Rightarrow> enum_descriptor_proto option" where
  "enum_decl_of env (Descriptor i k n ix None) = None"
| "enum_decl_of env (Descriptor i k n ix (Some p)) =
     (if kind p = FileKind then at (EnumType (ToFileDescriptorProto env p)) ix
      else (case message_decl_of env p of
              None \<Rightarrow> None
            | Some md \<Rightarrow> at (NestedEnumType md) ix))"

fun decl_kind :: "declared \<Rightarrow> kind" where
  "decl_kind (MessageDeclaration md) = MessageKind"
| "decl_kind (EnumDeclaration ed) = EnumKind"

text \<open>
  The library's side of the round trip, which the package does not call:
  \<^verbatim>\<open>protoreflect\<close>'s lists of children of a file or message (\<^verbatim>\<open>Messages()\<close>,
  \<^verbatim>\<open>Enums()\<close>) and \<^verbatim>\<open>protodesc\<close>'s conversions of a message and of an enum
  (\<^verbatim>\<open>ToDescriptorProto\<close>, \<^verbatim>\<open>ToEnumDescriptorProto\<close>). They are parameters, as
  the library calls are.
\<close>

record reflection =
  Messages :: "descriptor \<Rightarrow> descriptor list"
  Enums :: "descriptor \<Rightarrow> descriptor list"
  ToDescriptorProto :: "descriptor \<Rightarrow> descriptor_proto"
  ToEnumDescriptorProto :: "descriptor \<Rightarrow> enum_descriptor_proto"

text \<open>
  The contract of \<^verbatim>\<open>protoreflect\<close>: the i-th child in a list has the list's owner
  as its parent, i as its index, and the kind of the list.
\<close>

definition children_contract :: "reflection \<Rightarrow> bool" where
  "children_contract lib \<longleftrightarrow>
     (\<forall>p. \<forall>i < length (Messages lib p).
        Parent (Messages lib p ! i) = Some p \<and> Index (Messages lib p ! i) = int i \<and>
        kind (Messages lib p ! i) = MessageKind) \<and>
     (\<forall>p. \<forall>i < length (Enums lib p).
        Parent (Enums lib p ! i) = Some p \<and> Index (Enums lib p ! i) = int i \<and>
        kind (Enums lib p ! i) = EnumKind)"

text \<open>
  The contract of \<^verbatim>\<open>protodesc\<close>: the proto of a file lists the conversions of the
  file's messages and enums, in order; the conversion of a message has the message's
  name and lists the conversions of its nested messages and enums, in order; the
  conversion of an enum has the enum's name.
\<close>

definition protodesc_contract :: "env \<Rightarrow> reflection \<Rightarrow> descriptor \<Rightarrow> bool" where
  "protodesc_contract env lib f \<longleftrightarrow>
     MessageType (ToFileDescriptorProto env f) = map (ToDescriptorProto lib) (Messages lib f) \<and>
     EnumType (ToFileDescriptorProto env f) = map (ToEnumDescriptorProto lib) (Enums lib f) \<and>
     (\<forall>m. kind m = MessageKind \<longrightarrow>
        message_name (ToDescriptorProto lib m) = Name m \<and>
        NestedType (ToDescriptorProto lib m) = map (ToDescriptorProto lib) (Messages lib m) \<and>
        NestedEnumType (ToDescriptorProto lib m) =
          map (ToEnumDescriptorProto lib) (Enums lib m)) \<and>
     (\<forall>e. kind e = EnumKind \<longrightarrow> enum_name (ToEnumDescriptorProto lib e) = Name e)"

text \<open>
  A message or enum reachable from a root file: a child of the file, or a child of a
  message reachable from it.
\<close>

inductive declared_in :: "reflection \<Rightarrow> descriptor \<Rightarrow> descriptor \<Rightarrow> bool"
  for lib :: reflection and f :: descriptor where
  top_message: "c \<in> set (Messages lib f) \<Longrightarrow> declared_in lib f c"
| top_enum: "c \<in> set (Enums lib f) \<Longrightarrow> declared_in lib f c"
| nested_message: "declared_in lib f m \<Longrightarrow> kind m = MessageKind \<Longrightarrow>
     c \<in> set (Messages lib m) \<Longrightarrow> declared_in lib f c"
| nested_enum: "declared_in lib f m \<Longrightarrow> kind m = MessageKind \<Longrightarrow>
     c \<in> set (Enums lib m) \<Longrightarrow> declared_in lib f c"

text \<open>An absent declaration read as the fault of the index that misses it.\<close>

definition of_opt :: "'a option \<Rightarrow> panic + 'a" where
  "of_opt x = (case x of None \<Rightarrow> Inl IndexOutOfRange | Some v \<Rightarrow> Inr v)"

text \<open>
  The input of the Decompression Service (section 4.3) is valid when it is validly
  compressed and its decompressed content parses as a root tree.
\<close>

definition gunzip :: "env \<Rightarrow> byte list \<Rightarrow> byte list option" where
  "gunzip env bs =
     (case gzip_NewReader env bs of
        Inl err \<Rightarrow> None
      | Inr zr \<Rightarrow> (case ReadAll env zr of Inl err \<Rightarrow> None | Inr b \<Rightarrow> Some b))"

definition valid_input :: "env \<Rightarrow> byte list \<Rightarrow> bool" where
  "valid_input env bs =
     (case gunzip env bs of
        None \<Rightarrow> False
      | Some b \<Rightarrow> (case Unmarshal env b of Inl err \<Rightarrow> False | Inr fd \<Rightarrow> True))"

section \<open>Sequences of calls\<close>

text \<open>
  A buffer is published when the raw-descriptor cache holds it. A caller may hand in,
  through an accessor, a buffer of its own or one that this package returned, as it
  was returned (the returned slices must not be mutated, lines 99 and 110).
\<close>

definition published :: "state \<Rightarrow> bytes \<Rightarrow> bool" where
  "published s b = (\<exists>d r. rawDescCache s d = Some r \<and> fileDesc r = b)"

fun caller_buffer_ok :: "state \<Rightarrow> bytes \<Rightarrow> bool" where
  "caller_buffer_ok s (Slice (Alloc n) bs) = published s (Slice (Alloc n) bs)"
| "caller_buffer_ok s b = True"

definition caller_ok :: "state \<Rightarrow> generated \<Rightarrow> bool" where
  "caller_ok s v = (case accessor v of None \<Rightarrow> True | Some (b, ix) \<Rightarrow> caller_buffer_ok s b)"

text \<open>
  The caches are private to the package: only \<^verbatim>\<open>deriveRawDescriptor\<close> and
  \<^verbatim>\<open>deriveFileDescriptor\<close> write them. \<open>evolves env s s'\<close>: the state \<open>s'\<close>
  comes from \<open>s\<close> by a sequence of calls of the two, on any arguments. Every exported
  function is such a sequence.
\<close>

inductive evolves :: "env \<Rightarrow> state \<Rightarrow> state \<Rightarrow> bool" for env :: env and s :: state where
  evolves_refl: "evolves env s s"
| evolves_raw: "evolves env s s1 \<Longrightarrow> evolves env s (snd (deriveRawDescriptor env d s1))"
| evolves_file: "evolves env s s1 \<Longrightarrow> evolves env s (snd (deriveFileDescriptor env b s1))"

text \<open>
  \<open>evolves_intact env s s'\<close>: the same, when every buffer handed to
  \<^verbatim>\<open>deriveFileDescriptor\<close> is a caller's own or a returned one, whole and unchanged.
\<close>

inductive evolves_intact :: "env \<Rightarrow> state \<Rightarrow> state \<Rightarrow> bool" for env :: env and s :: state where
  intact_refl: "evolves_intact env s s"
| intact_raw: "evolves_intact env s s1 \<Longrightarrow>
     evolves_intact env s (snd (deriveRawDescriptor env d s1))"
| intact_file: "evolves_intact env s s1 \<Longrightarrow> caller_buffer_ok s1 b \<Longrightarrow>
     evolves_intact env s (snd (deriveFileDescriptor env b s1))"

text \<open>The bytes line 84 computes for a file.\<close>

definition derived :: "env \<Rightarrow> descriptor \<Rightarrow> byte list" where
  "derived env f = CompressGZIP env (Marshal env (ToFileDescriptorProto env f))"

text \<open>
  What holds of the raw-descriptor cache in every state that evolves from the empty
  caches: an entry is the derivation of its key, in a buffer allocated before, and no
  two entries share a buffer.
\<close>

definition raw_inv :: "env \<Rightarrow> state \<Rightarrow> bool" where
  "raw_inv env s \<longleftrightarrow>
     (\<forall>d r. rawDescCache s d = Some r \<longrightarrow>
        (\<exists>f n. root_file d = Some f \<and> n < next_alloc s \<and>
           r = \<lparr>fileDesc = Slice (Alloc n) (derived env f), indexes = Some (rev (leaf_to_root d))\<rparr>)) \<and>
     (\<forall>d d' r r' n bs bs'. rawDescCache s d = Some r \<longrightarrow> rawDescCache s d' = Some r' \<longrightarrow>
        fileDesc r = Slice (Alloc n) bs \<longrightarrow> fileDesc r' = Slice (Alloc n) bs' \<longrightarrow> d = d')"

text \<open>
  What holds of the file-tree cache while the buffers are intact: an entry under the
  address of an allocated buffer is the decoding of a published buffer at that
  address.
\<close>

definition file_inv :: "env \<Rightarrow> state \<Rightarrow> bool" where
  "file_inv env s \<longleftrightarrow>
     (\<forall>n t. fileDescCache s (Alloc n) = Some t \<longrightarrow>
        (\<exists>d r bs. rawDescCache s d = Some r \<and> fileDesc r = Slice (Alloc n) bs \<and>
           decode env bs = Inr t))"

section \<open>Values for the examples\<close>

text \<open>
  A file \<^verbatim>\<open>demo.proto\<close> with a message Foo, a message Bar and an enum Color nested
  in Foo, and a top-level enum Top; a message Orphan that belongs to no file.
\<close>

definition demo_file :: descriptor where
  "demo_file = Descriptor 0 FileKind ''demo.proto'' 0 None"

definition demo_Foo :: descriptor where
  "demo_Foo = Descriptor 1 MessageKind ''Foo'' 0 (Some demo_file)"

definition demo_Bar :: descriptor where
  "demo_Bar = Descriptor 2 MessageKind ''Bar'' 0 (Some demo_Foo)"

definition demo_Color :: descriptor where
  "demo_Color = Descriptor 3 EnumKind ''Color'' 0 (Some demo_Foo)"

definition demo_Top :: descriptor where
  "demo_Top = Descriptor 4 EnumKind ''Top'' 0 (Some demo_file)"

definition demo_Orphan :: descriptor where
  "demo_Orphan = Descriptor 5 MessageKind ''Orphan'' 0 None"

definition demo_proto :: file_descriptor_proto where
  "demo_proto =
     FileDecl ''demo.proto''
       [MessageDecl ''Foo'' [MessageDecl ''Bar'' [] []] [EnumDecl ''Color'']]
       [EnumDecl ''Top'']"

text \<open>
  Library functions for the examples: a two-byte serialization of the one file, a
  compression that prepends the two magic bytes of GZIP, and their inverses. The
  registry maps value 0 to Foo and Top, value 1 to Bar and Color, any other to Orphan.
\<close>

definition demo_env :: env where
  "demo_env =
     \<lparr>ToFileDescriptorProto = (\<lambda>d. demo_proto),
      Marshal = (\<lambda>p. if p = demo_proto then [10, 3] else []),
      CompressGZIP = (\<lambda>b. [31, 139] @ b),
      gzip_NewReader = (\<lambda>bs. if take 2 bs = [31, 139] then Inr (drop 2 bs)
                               else Inl ''gzip: invalid header''),
      ReadAll = (\<lambda>zr. Inr zr),
      Unmarshal = (\<lambda>b. if b = [10, 3] then Inr demo_proto else Inl ''proto: cannot parse''),
      EnumTypeOf = (\<lambda>v. if value_id v = 0 then demo_Top
                          else if value_id v = 1 then demo_Color else demo_Orphan),
      MessageTypeOf = (\<lambda>v. if value_id v = 0 then demo_Foo
                             else if value_id v = 1 then demo_Bar else demo_Orphan)\<rparr>"

text \<open>The children and the conversions of the example file.\<close>

definition demo_lib :: reflection where
  "demo_lib =
     \<lparr>Messages = (\<lambda>d. if d = demo_file then [demo_Foo]
                        else if d = demo_Foo then [demo_Bar] else []),
      Enums = (\<lambda>d. if d = demo_file then [demo_Top]
                     else if d = demo_Foo then [demo_Color] else []),
      ToDescriptorProto = (\<lambda>d. if d = demo_Foo
                                 then MessageDecl ''Foo'' [MessageDecl ''Bar'' [] []] [EnumDecl ''Color'']
                                 else MessageDecl (Name d) [] []),
      ToEnumDescriptorProto = (\<lambda>d. EnumDecl (Name d))\<rparr>"

text \<open>A value that reports its own legacy artifact, and one that reports an empty one.\<close>

definition demo_self :: generated where
  "demo_self = \<lparr>value_id = 7, accessor = Some (Slice (Extern 7) [31, 139, 10, 3], Some [0])\<rparr>"

definition demo_empty :: generated where
  "demo_empty = \<lparr>value_id = 8, accessor = Some (Slice (Extern 8) [], Some [0])\<rparr>"

definition demo_plain :: "nat \<Rightarrow> generated" where
  "demo_plain n = \<lparr>value_id = n, accessor = None\<rparr>"

text \<open>The caches after one derivation for Foo.\<close>

definition demo_state :: state where
  "demo_state = snd (deriveRawDescriptor demo_env demo_Foo init_state)"

section \<open>Basic facts\<close>

lemma pbind_Inr [simp]: "pbind (Inr v) f = f v"
  by (simp add: pbind_def)

lemma pbind_Inl [simp]: "pbind (Inl p) f = Inl p"
  by (simp add: pbind_def)

lemma pbind_assoc: "pbind (pbind r f) g = pbind r (\<lambda>v. pbind (f v) g)"
  by (cases r) simp_all

lemma pmap_Inr [simp]: "pmap h (Inr v) = Inr (h v)"
  by (simp add: pmap_def)

lemma pmap_Inl [simp]: "pmap h (Inl p) = Inl p"
  by (simp add: pmap_def)

lemma pmap_pbind: "pmap h (pbind r f) = pbind r (\<lambda>v. pmap h (f v))"
  by (cases r) simp_all

lemma index_Cons_0: "index (x # xs) 0 = Inr x"
  by (simp add: index_def)

lemma index_last: "xs \<noteq> [] \<Longrightarrow> index xs (int (length xs) - 1) = Inr (last xs)"
  by (cases xs rule: rev_cases) (auto simp: index_def nth_append)

lemma slice_tl: "slice (x # xs) 1 (int (length (x # xs))) = Inr xs"
  by (simp add: slice_def)

lemma slice_mid: "slice (x # xs @ [y]) 1 (int (length (x # xs @ [y])) - 1) = Inr xs"
  by (simp add: slice_def)

section \<open>The navigation\<close>

lemma locate_message_Cons:
  "locate_message fd (i # rest) = pbind (index (MessageType fd) i) (\<lambda>md. descend md rest)"
  unfolding locate_message_def by (simp only: index_Cons_0 slice_tl pbind_Inr)

lemma locate_enum_single: "locate_enum fd [i] = index (EnumType fd) i"
  unfolding locate_enum_def by (simp add: index_Cons_0)

lemma locate_enum_snoc:
  "locate_enum fd (i # mid @ [l]) =
     pbind (index (MessageType fd) i) (\<lambda>md.
     pbind (descend md mid) (\<lambda>md'. index (NestedEnumType md') l))"
proof -
  have len: "length (i # mid @ [l]) \<noteq> 1" by simp
  have last: "index (i # mid @ [l]) (int (length (i # mid @ [l])) - 1) = Inr l"
    using index_last[of "i # mid @ [l]"] by simp
  show ?thesis
    unfolding locate_enum_def
    by (simp only: len if_False index_Cons_0 slice_mid last pbind_Inr)
qed

lemma descend_append:
  "descend md (xs @ ys) = pbind (descend md xs) (\<lambda>md'. descend md' ys)"
  by (induction xs arbitrary: md) (simp_all add: pbind_assoc)

lemma descend_spec_message:
  "pmap MessageDeclaration (descend md (j # js)) = spec_inner TargetMessage md j js"
proof (induction js arbitrary: md j)
  case Nil
  show ?case by (cases "index (NestedType md) j") simp_all
next
  case (Cons k ks)
  show ?case
  proof (cases "index (NestedType md) j")
    case (Inl p)
    then show ?thesis by simp
  next
    case (Inr md')
    then show ?thesis using Cons.IH[of md' k] by simp
  qed
qed

lemma descend_spec_enum:
  "pbind (descend md (butlast (j # js)))
     (\<lambda>md'. pmap EnumDeclaration (index (NestedEnumType md') (last (j # js))))
   = spec_inner TargetEnum md j js"
proof (induction js arbitrary: md j)
  case Nil
  show ?case by simp
next
  case (Cons k ks)
  show ?case
  proof (cases "index (NestedType md) j")
    case (Inl p)
    then show ?thesis by simp
  next
    case (Inr md')
    then show ?thesis using Cons.IH[of md' k] by simp
  qed
qed

text \<open>
  C2. For every decoded root tree and every index path with a first index: the
  navigation of \<^verbatim>\<open>EnumDescriptorProto\<close> and of \<^verbatim>\<open>MessageDescriptorProto\<close> selects
  what the specification says. A path of length 1 selects among the top-level enums
  (enum operation) or top-level messages (message operation); in a longer path the
  first index selects a top-level message, each intermediate index a nested message,
  and the final index a nested enum or a nested message of the last message reached.
  An index out of range is the same fault on both sides.
\<close>

theorem navigation_follows_spec:
  "pmap EnumDeclaration (locate_enum fd (i # rest)) = spec_locate TargetEnum fd i rest \<and>
   pmap MessageDeclaration (locate_message fd (i # rest)) = spec_locate TargetMessage fd i rest"
proof
  show "pmap EnumDeclaration (locate_enum fd (i # rest)) = spec_locate TargetEnum fd i rest"
  proof (cases rest)
    case Nil
    then show ?thesis by (simp add: locate_enum_single)
  next
    case (Cons j js)
    have split: "j # js = butlast (j # js) @ [last (j # js)]"
      by (rule append_butlast_last_id[symmetric]) simp
    have "locate_enum fd (i # j # js) =
       pbind (index (MessageType fd) i) (\<lambda>md.
       pbind (descend md (butlast (j # js))) (\<lambda>md'. index (NestedEnumType md') (last (j # js))))"
      using locate_enum_snoc[of fd i "butlast (j # js)" "last (j # js)"] split by simp
    then show ?thesis
      using Cons by (simp add: pmap_pbind descend_spec_enum del: butlast.simps last.simps)
  qed
next
  show "pmap MessageDeclaration (locate_message fd (i # rest)) = spec_locate TargetMessage fd i rest"
  proof (cases rest)
    case Nil
    then show ?thesis by (simp add: locate_message_Cons pmap_def pbind_assoc)
  next
    case (Cons j js)
    then show ?thesis
      by (simp only: locate_message_Cons pmap_pbind descend_spec_message spec_locate.simps)
  qed
qed

section \<open>The fast path\<close>

text \<open>
  C4. A value that has its own accessor (\<^verbatim>\<open>EnumDescriptor()\<close> for enums,
  \<^verbatim>\<open>Descriptor()\<close> for messages): \<^verbatim>\<open>EnumRawDescriptor\<close> and
  \<^verbatim>\<open>MessageRawDescriptor\<close> return exactly the accessor's output. The result is the
  same for every registry, every library function and every content of the caches,
  and the caches are left as they were: the derivation is not used.
\<close>

theorem fast_path_precedence:
  "accessor v = Some out \<Longrightarrow>
   EnumRawDescriptor env v s = (out, s) \<and> MessageRawDescriptor env v s = (out, s)"
  by (simp add: EnumRawDescriptor_def MessageRawDescriptor_def)

theorem fast_path_precedence_witness:
  "accessor demo_self = Some (Slice (Extern 7) [31, 139, 10, 3], Some [0]) \<and>
   EnumRawDescriptor demo_env demo_self init_state =
     ((Slice (Extern 7) [31, 139, 10, 3], Some [0]), init_state) \<and>
   MessageRawDescriptor demo_env demo_self init_state =
     ((Slice (Extern 7) [31, 139, 10, 3], Some [0]), init_state)"
proof -
  have h: "accessor demo_self = Some (Slice (Extern 7) [31, 139, 10, 3], Some [0])"
    by (simp add: demo_self_def)
  show ?thesis
    using h fast_path_precedence [OF h, of demo_env init_state] by simp
qed

text \<open>
  C9. For every message value m, \<^verbatim>\<open>ForMessage(m)\<close> returns what
  \<^verbatim>\<open>MessageDescriptorProto(m)\<close> returns, and leaves the same caches.
\<close>

theorem ForMessage_is_MessageDescriptorProto:
  "ForMessage env m s = MessageDescriptorProto env (as_generated m) s"
  by (simp add: ForMessage_def)

text \<open>
  C10. A value whose accessor returns a non-nil empty byte slice and a non-nil index
  path: \<^verbatim>\<open>EnumDescriptorProto\<close> and \<^verbatim>\<open>MessageDescriptorProto\<close> panic with an
  index-out-of-range fault, raised by \<^verbatim>\<open>&rawDesc[0]\<close> in
  \<^verbatim>\<open>deriveFileDescriptor\<close>. The nil guard does not catch the empty slice. The fault
  comes before the cache is read and before any decompression: it is the result for
  every library and every content of the caches.
\<close>

theorem empty_raw_descriptor_panics:
  "accessor v = Some (Slice a [], Some ix) \<Longrightarrow>
   EnumDescriptorProto env v s = (Inl IndexOutOfRange, s) \<and>
   MessageDescriptorProto env v s = (Inl IndexOutOfRange, s) \<and>
   deriveFileDescriptor env (Slice a []) s = (Inl IndexOutOfRange, s)"
  by (simp add: EnumDescriptorProto_def MessageDescriptorProto_def EnumRawDescriptor_def
      MessageRawDescriptor_def deriveFileDescriptor_def)

theorem empty_raw_descriptor_panics_witness:
  "accessor demo_empty = Some (Slice (Extern 8) [], Some [0]) \<and>
   EnumDescriptorProto demo_env demo_empty init_state = (Inl IndexOutOfRange, init_state) \<and>
   MessageDescriptorProto demo_env demo_empty init_state = (Inl IndexOutOfRange, init_state) \<and>
   deriveFileDescriptor demo_env (Slice (Extern 8) []) init_state =
     (Inl IndexOutOfRange, init_state)"
proof -
  have h: "accessor demo_empty = Some (Slice (Extern 8) [], Some [0])"
    by (simp add: demo_empty_def)
  show ?thesis
    using h empty_raw_descriptor_panics [OF h, of demo_env init_state] by simp
qed

section \<open>The derivation\<close>

lemma ascend_root_file:
  "ascend d acc = (case root_file d of None \<Rightarrow> None | Some f \<Rightarrow> Some (acc @ leaf_to_root d, f))"
  by (induction d acc rule: ascend.induct) (auto split: option.splits)

lemma reverse_loop_spec:
  "0 \<le> i \<Longrightarrow> j < int (length xs) \<Longrightarrow>
   length (reverse_loop xs i j) = length xs \<and>
   (\<forall>k < length xs. reverse_loop xs i j ! k =
      (if i \<le> int k \<and> int k \<le> j then xs ! nat (i + j - int k) else xs ! k))"
proof (induction xs i j rule: reverse_loop.induct)
  case (1 idxs i j)
  show ?case
  proof (cases "i < j")
    case False
    then have "reverse_loop idxs i j = idxs"
      using reverse_loop.simps[of idxs i j] by simp
    moreover have "\<forall>k < length idxs. i \<le> int k \<and> int k \<le> j \<longrightarrow> nat (i + j - int k) = k"
      using False by auto
    ultimately show ?thesis by auto
  next
    case True
    let ?ys = "idxs[nat i := idxs ! nat j, nat j := idxs ! nat i]"
    have step: "reverse_loop idxs i j = reverse_loop ?ys (i + 1) (j - 1)"
      using True reverse_loop.simps[of idxs i j] by simp
    have ih: "length (reverse_loop ?ys (i + 1) (j - 1)) = length ?ys \<and>
      (\<forall>k < length ?ys. reverse_loop ?ys (i + 1) (j - 1) ! k =
         (if i + 1 \<le> int k \<and> int k \<le> j - 1 then ?ys ! nat (i + 1 + (j - 1) - int k) else ?ys ! k))"
      using "1.IH"[OF True] "1.prems" by simp
    show ?thesis
    proof (intro conjI allI impI)
      show "length (reverse_loop idxs i j) = length idxs" using step ih by simp
    next
      fix k assume k: "k < length idxs"
      have r: "reverse_loop idxs i j ! k =
         (if i + 1 \<le> int k \<and> int k \<le> j - 1 then ?ys ! nat (i + 1 + (j - 1) - int k) else ?ys ! k)"
        using step ih k by simp
      show "reverse_loop idxs i j ! k =
         (if i \<le> int k \<and> int k \<le> j then idxs ! nat (i + j - int k) else idxs ! k)"
      proof (cases "i + 1 \<le> int k \<and> int k \<le> j - 1")
        case inner: True
        then have "nat (i + j - int k) \<noteq> nat i" "nat (i + j - int k) \<noteq> nat j"
          using "1.prems" by auto
        then show ?thesis using r inner by simp
      next
        case outer: False
        consider "int k = i" | "int k = j" | "int k < i" | "j < int k"
          using outer by linarith
        then show ?thesis
        proof cases
          case 1
          then have "k = nat i" by simp
          then show ?thesis using r outer True "1.prems" k by (simp add: nth_list_update)
        next
          case 2
          then have "k = nat j" by simp
          then show ?thesis using r outer True "1.prems" k 2 by (simp add: nth_list_update)
        next
          case 3
          then have "k \<noteq> nat i" "k \<noteq> nat j" using True "1.prems" by auto
          then show ?thesis using r outer 3 by simp
        next
          case 4
          then have "k \<noteq> nat i" "k \<noteq> nat j" using True "1.prems" by auto
          then show ?thesis using r outer 4 by simp
        qed
      qed
    qed
  qed
qed

lemma reverse_loop_rev: "reverse_loop xs 0 (int (length xs) - 1) = rev xs"
proof (rule nth_equalityI)
  show "length (reverse_loop xs 0 (int (length xs) - 1)) = length (rev xs)"
    using reverse_loop_spec[of 0 "int (length xs) - 1" xs] by simp
next
  fix k assume "k < length (reverse_loop xs 0 (int (length xs) - 1))"
  then have k: "k < length xs"
    using reverse_loop_spec[of 0 "int (length xs) - 1" xs] by simp
  then have "reverse_loop xs 0 (int (length xs) - 1) ! k = xs ! nat (int (length xs) - 1 - int k)"
    using reverse_loop_spec[of 0 "int (length xs) - 1" xs] by auto
  moreover have "nat (int (length xs) - 1 - int k) = length xs - Suc k" using k by auto
  ultimately show "reverse_loop xs 0 (int (length xs) - 1) ! k = rev xs ! k"
    using k by (simp add: rev_nth)
qed

lemma deriveRawDescriptor_hit:
  "rawDescCache s d = Some v \<Longrightarrow> deriveRawDescriptor env d s = ((fileDesc v, indexes v), s)"
  by (simp add: deriveRawDescriptor_def Load_def)

lemma deriveRawDescriptor_none:
  "rawDescCache s d = None \<Longrightarrow> root_file d = None \<Longrightarrow>
   deriveRawDescriptor env d s = ((nil_bytes, None), s)"
  by (simp add: deriveRawDescriptor_def Load_def ascend_root_file)

lemma deriveRawDescriptor_miss:
  "rawDescCache s d = None \<Longrightarrow> root_file d = Some f \<Longrightarrow>
   deriveRawDescriptor env d s =
     ((Slice (Alloc (next_alloc s)) (derived env f), Some (rev (leaf_to_root d))),
      s\<lparr>next_alloc := Suc (next_alloc s),
        rawDescCache := (rawDescCache s)(d \<mapsto>
          \<lparr>fileDesc = Slice (Alloc (next_alloc s)) (derived env f),
           indexes = Some (rev (leaf_to_root d))\<rparr>)\<rparr>)"
  by (simp add: deriveRawDescriptor_def Load_def LoadOrStore_def ascend_root_file
      reverse_loop_rev derived_def Let_def)

lemma deriveFileDescriptor_empty:
  "contents b = [] \<Longrightarrow> deriveFileDescriptor env b s = (Inl IndexOutOfRange, s)"
  by (cases b) (simp_all add: deriveFileDescriptor_def)

lemma deriveFileDescriptor_hit:
  "bs \<noteq> [] \<Longrightarrow> fileDescCache s a = Some t \<Longrightarrow>
   deriveFileDescriptor env (Slice a bs) s = (Inr t, s)"
  by (simp add: deriveFileDescriptor_def Load_def)

lemma deriveFileDescriptor_miss:
  "bs \<noteq> [] \<Longrightarrow> fileDescCache s a = None \<Longrightarrow>
   deriveFileDescriptor env (Slice a bs) s =
     (case decode env bs of
        Inl p \<Rightarrow> (Inl p, s)
      | Inr t \<Rightarrow> (Inr t, s\<lparr>fileDescCache := (fileDescCache s)(a \<mapsto> t)\<rparr>))"
  by (simp add: deriveFileDescriptor_def Load_def LoadOrStore_def split: sum.splits)

section \<open>What the calls leave unchanged\<close>

lemma rawDescCache_raw_mono:
  "rawDescCache s d' = Some r \<Longrightarrow> rawDescCache (snd (deriveRawDescriptor env d s)) d' = Some r"
proof (cases "rawDescCache s d")
  case (Some v)
  assume "rawDescCache s d' = Some r"
  then show ?thesis using Some by (simp add: deriveRawDescriptor_hit)
next
  case None
  assume h: "rawDescCache s d' = Some r"
  then have "d' \<noteq> d" using None by auto
  then show ?thesis
    using h None
    by (cases "root_file d") (simp_all add: deriveRawDescriptor_none deriveRawDescriptor_miss)
qed

lemma rawDescCache_file_same:
  "rawDescCache (snd (deriveFileDescriptor env b s)) = rawDescCache s"
  by (simp add: deriveFileDescriptor_def LoadOrStore_def
      split: sum.splits option.splits prod.splits bool.splits)

lemma next_alloc_file_same:
  "next_alloc (snd (deriveFileDescriptor env b s)) = next_alloc s"
  by (simp add: deriveFileDescriptor_def LoadOrStore_def
      split: sum.splits option.splits prod.splits bool.splits)

lemma fileDescCache_raw_same:
  "fileDescCache (snd (deriveRawDescriptor env d s)) = fileDescCache s"
proof (cases "rawDescCache s d")
  case (Some v)
  then show ?thesis by (simp add: deriveRawDescriptor_hit)
next
  case None
  then show ?thesis
    by (cases "root_file d") (simp_all add: deriveRawDescriptor_none deriveRawDescriptor_miss)
qed

lemma fileDescCache_file_mono:
  "fileDescCache s a = Some t \<Longrightarrow> fileDescCache (snd (deriveFileDescriptor env b s)) a = Some t"
  by (auto simp: deriveFileDescriptor_def LoadOrStore_def Load_def
      split: sum.splits option.splits prod.splits bool.splits)

section \<open>The invariants of the caches\<close>

lemma raw_inv_init: "raw_inv env init_state"
  by (simp add: raw_inv_def init_state_def)

lemma file_inv_init: "file_inv env init_state"
  by (simp add: file_inv_def init_state_def)

lemma raw_inv_raw:
  assumes inv: "raw_inv env s"
  shows "raw_inv env (snd (deriveRawDescriptor env d s))"
proof (cases "rawDescCache s d")
  case (Some v)
  then show ?thesis using inv by (simp add: deriveRawDescriptor_hit)
next
  case None
  show ?thesis
  proof (cases "root_file d")
    case no_root: None
    then show ?thesis using inv None by (simp add: deriveRawDescriptor_none)
  next
    case (Some f)
    let ?r = "\<lparr>fileDesc = Slice (Alloc (next_alloc s)) (derived env f),
               indexes = Some (rev (leaf_to_root d))\<rparr>"
    let ?s = "s\<lparr>next_alloc := Suc (next_alloc s), rawDescCache := (rawDescCache s)(d \<mapsto> ?r)\<rparr>"
    have eq: "snd (deriveRawDescriptor env d s) = ?s"
      using None Some by (simp add: deriveRawDescriptor_miss)
    have A: "\<And>d1 r. rawDescCache s d1 = Some r \<Longrightarrow>
        \<exists>f n. root_file d1 = Some f \<and> n < next_alloc s \<and>
           r = \<lparr>fileDesc = Slice (Alloc n) (derived env f), indexes = Some (rev (leaf_to_root d1))\<rparr>"
      using inv unfolding raw_inv_def by blast
    have B: "\<And>d1 d2 r r' n bs bs'. rawDescCache s d1 = Some r \<Longrightarrow> rawDescCache s d2 = Some r' \<Longrightarrow>
        fileDesc r = Slice (Alloc n) bs \<Longrightarrow> fileDesc r' = Slice (Alloc n) bs' \<Longrightarrow> d1 = d2"
      using inv unfolding raw_inv_def by blast
    have old_lt: "\<And>d1 r n bs. rawDescCache s d1 = Some r \<Longrightarrow> fileDesc r = Slice (Alloc n) bs \<Longrightarrow>
        n < next_alloc s"
      using A by fastforce
    have A': "\<forall>d1 r. rawDescCache ?s d1 = Some r \<longrightarrow>
        (\<exists>f n. root_file d1 = Some f \<and> n < next_alloc ?s \<and>
           r = \<lparr>fileDesc = Slice (Alloc n) (derived env f), indexes = Some (rev (leaf_to_root d1))\<rparr>)"
    proof (intro allI impI)
      fix d1 r assume h: "rawDescCache ?s d1 = Some r"
      show "\<exists>f n. root_file d1 = Some f \<and> n < next_alloc ?s \<and>
           r = \<lparr>fileDesc = Slice (Alloc n) (derived env f), indexes = Some (rev (leaf_to_root d1))\<rparr>"
      proof (cases "d1 = d")
        case True
        then have "r = ?r" using h by simp
        then show ?thesis using True Some by auto
      next
        case False
        then have "rawDescCache s d1 = Some r" using h by simp
        from A[OF this] obtain f1 n1 where "root_file d1 = Some f1" "n1 < next_alloc s"
          "r = \<lparr>fileDesc = Slice (Alloc n1) (derived env f1), indexes = Some (rev (leaf_to_root d1))\<rparr>"
          by blast
        then show ?thesis by auto
      qed
    qed
    have B': "\<forall>d1 d2 r r' n bs bs'. rawDescCache ?s d1 = Some r \<longrightarrow> rawDescCache ?s d2 = Some r' \<longrightarrow>
        fileDesc r = Slice (Alloc n) bs \<longrightarrow> fileDesc r' = Slice (Alloc n) bs' \<longrightarrow> d1 = d2"
    proof (intro allI impI)
      fix d1 d2 r r' n bs bs'
      assume h1: "rawDescCache ?s d1 = Some r" and h2: "rawDescCache ?s d2 = Some r'"
        and f1: "fileDesc r = Slice (Alloc n) bs" and f2: "fileDesc r' = Slice (Alloc n) bs'"
      show "d1 = d2"
      proof (cases "d1 = d")
        case d1: True
        then have n: "n = next_alloc s" using h1 f1 by auto
        show ?thesis
        proof (cases "d2 = d")
          case True
          then show ?thesis using d1 by simp
        next
          case False
          then have "rawDescCache s d2 = Some r'" using h2 by simp
          from old_lt[OF this f2] n show ?thesis by simp
        qed
      next
        case nd1: False
        then have o1: "rawDescCache s d1 = Some r" using h1 by simp
        show ?thesis
        proof (cases "d2 = d")
          case True
          then have "n = next_alloc s" using h2 f2 by auto
          with old_lt[OF o1 f1] show ?thesis by simp
        next
          case False
          then have "rawDescCache s d2 = Some r'" using h2 by simp
          from B[OF o1 this f1 f2] show ?thesis .
        qed
      qed
    qed
    show ?thesis
      unfolding eq raw_inv_def using A' B' by blast
  qed
qed

lemma raw_inv_file: "raw_inv env s \<Longrightarrow> raw_inv env (snd (deriveFileDescriptor env b s))"
  unfolding raw_inv_def by (simp only: rawDescCache_file_same next_alloc_file_same)

lemma file_inv_raw:
  assumes inv: "file_inv env s"
  shows "file_inv env (snd (deriveRawDescriptor env d s))"
  unfolding file_inv_def
proof (intro allI impI)
  fix n t
  assume "fileDescCache (snd (deriveRawDescriptor env d s)) (Alloc n) = Some t"
  then have "fileDescCache s (Alloc n) = Some t" by (simp add: fileDescCache_raw_same)
  then obtain d0 r bs where o: "rawDescCache s d0 = Some r"
    "fileDesc r = Slice (Alloc n) bs" "decode env bs = Inr t"
    using inv unfolding file_inv_def by blast
  have "rawDescCache (snd (deriveRawDescriptor env d s)) d0 = Some r"
    using o(1) by (rule rawDescCache_raw_mono)
  then show "\<exists>d' r bs. rawDescCache (snd (deriveRawDescriptor env d s)) d' = Some r \<and>
      fileDesc r = Slice (Alloc n) bs \<and> decode env bs = Inr t"
    using o by blast
qed

lemma file_inv_file:
  assumes inv: "file_inv env s" and ok: "caller_buffer_ok s b"
  shows "file_inv env (snd (deriveFileDescriptor env b s))"
proof (cases "contents b = []")
  case True
  then show ?thesis using inv by (simp add: deriveFileDescriptor_empty)
next
  case False
  then obtain a bs where b: "b = Slice a bs" and bs: "bs \<noteq> []"
    by (cases b) auto
  show ?thesis
  proof (cases "fileDescCache s a")
    case (Some t)
    then show ?thesis using inv b bs by (simp add: deriveFileDescriptor_hit)
  next
    case None
    show ?thesis
    proof (cases "decode env bs")
      case (Inl p)
      then show ?thesis using inv b bs None by (simp add: deriveFileDescriptor_miss)
    next
      case (Inr t)
      let ?s = "s\<lparr>fileDescCache := (fileDescCache s)(a \<mapsto> t)\<rparr>"
      have eq: "snd (deriveFileDescriptor env b s) = ?s"
        using b bs None Inr by (simp add: deriveFileDescriptor_miss)
      have C: "\<And>n t. fileDescCache s (Alloc n) = Some t \<Longrightarrow>
        \<exists>d r bs. rawDescCache s d = Some r \<and> fileDesc r = Slice (Alloc n) bs \<and> decode env bs = Inr t"
        using inv unfolding file_inv_def by blast
      have C': "\<forall>n t'. fileDescCache ?s (Alloc n) = Some t' \<longrightarrow>
        (\<exists>d r bs. rawDescCache ?s d = Some r \<and> fileDesc r = Slice (Alloc n) bs \<and>
           decode env bs = Inr t')"
      proof (intro allI impI)
        fix n t' assume h: "fileDescCache ?s (Alloc n) = Some t'"
        show "\<exists>d r bs. rawDescCache ?s d = Some r \<and> fileDesc r = Slice (Alloc n) bs \<and>
           decode env bs = Inr t'"
        proof (cases "a = Alloc n")
          case True
          then have t': "t' = t" using h by simp
          have "published s (Slice (Alloc n) bs)" using ok b True by simp
          then obtain d r where "rawDescCache s d = Some r" "fileDesc r = Slice (Alloc n) bs"
            unfolding published_def by blast
          then show ?thesis using Inr t' by auto
        next
          case False
          then have "fileDescCache s (Alloc n) = Some t'" using h by simp
          from C[OF this] show ?thesis by simp
        qed
      qed
      show ?thesis
        unfolding eq file_inv_def using C' by blast
    qed
  qed
qed

lemma evolves_raw_inv: "evolves env s s' \<Longrightarrow> raw_inv env s \<Longrightarrow> raw_inv env s'"
  by (induction rule: evolves.induct) (auto intro: raw_inv_raw raw_inv_file)

lemma reachable_raw_inv: "evolves env init_state s \<Longrightarrow> raw_inv env s"
  using evolves_raw_inv raw_inv_init by blast

lemma intact_evolves: "evolves_intact env s s' \<Longrightarrow> evolves env s s'"
  by (induction rule: evolves_intact.induct) (auto intro: evolves.intros)

lemma intact_file_inv: "evolves_intact env s s' \<Longrightarrow> file_inv env s \<Longrightarrow> file_inv env s'"
  by (induction rule: evolves_intact.induct) (auto intro: file_inv_raw file_inv_file)

lemma reachable_file_inv: "evolves_intact env init_state s \<Longrightarrow> file_inv env s"
  using intact_file_inv file_inv_init by blast

lemma evolves_trans: "evolves env s1 s2 \<Longrightarrow> evolves env s s1 \<Longrightarrow> evolves env s s2"
  by (induction rule: evolves.induct) (auto intro: evolves.intros)

lemma evolves_rawDescCache_mono:
  "evolves env s s' \<Longrightarrow> rawDescCache s d = Some r \<Longrightarrow> rawDescCache s' d = Some r"
  by (induction rule: evolves.induct) (simp_all add: rawDescCache_raw_mono rawDescCache_file_same)

lemma evolves_fileDescCache_mono:
  "evolves env s s' \<Longrightarrow> fileDescCache s a = Some t \<Longrightarrow> fileDescCache s' a = Some t"
  by (induction rule: evolves.induct) (simp_all add: fileDescCache_raw_same fileDescCache_file_mono)

lemma deriveRawDescriptor_result_ok:
  "caller_buffer_ok (snd (deriveRawDescriptor env d s)) (fst (fst (deriveRawDescriptor env d s)))"
proof (cases "rawDescCache s d")
  case (Some v)
  then have "published s (fileDesc v)" unfolding published_def by blast
  then have "caller_buffer_ok s (fileDesc v)"
    by (cases "(s, fileDesc v)" rule: caller_buffer_ok.cases) auto
  then show ?thesis using Some by (simp add: deriveRawDescriptor_hit)
next
  case None
  show ?thesis
  proof (cases "root_file d")
    case no_root: None
    then show ?thesis using None by (simp add: deriveRawDescriptor_none)
  next
    case (Some f)
    then show ?thesis using None
      by (auto simp: deriveRawDescriptor_miss published_def intro!: exI[of _ d])
  qed
qed

lemma EnumRawDescriptor_evolves: "evolves env s (snd (EnumRawDescriptor env e s))"
  by (cases "accessor e") (simp_all add: EnumRawDescriptor_def evolves.intros)

lemma MessageRawDescriptor_evolves: "evolves env s (snd (MessageRawDescriptor env m s))"
  by (cases "accessor m") (simp_all add: MessageRawDescriptor_def evolves.intros)

lemma EnumDescriptorProto_evolves: "evolves env s (snd (EnumDescriptorProto env e s))"
proof -
  obtain rawDesc idxs s1 where r: "EnumRawDescriptor env e s = ((rawDesc, idxs), s1)"
    by (metis prod.collapse)
  have s1: "evolves env s s1" using EnumRawDescriptor_evolves[of env s e] r by simp
  have s2: "evolves env s (snd (deriveFileDescriptor env rawDesc s1))"
    using s1 by (rule evolves_file)
  show ?thesis
    using r s1 s2
    by (auto simp: EnumDescriptorProto_def split: option.splits prod.splits sum.splits)
qed

lemma MessageDescriptorProto_evolves: "evolves env s (snd (MessageDescriptorProto env m s))"
proof -
  obtain rawDesc idxs s1 where r: "MessageRawDescriptor env m s = ((rawDesc, idxs), s1)"
    by (metis prod.collapse)
  have s1: "evolves env s s1" using MessageRawDescriptor_evolves[of env s m] r by simp
  have s2: "evolves env s (snd (deriveFileDescriptor env rawDesc s1))"
    using s1 by (rule evolves_file)
  show ?thesis
    using r s1 s2
    by (auto simp: MessageDescriptorProto_def split: option.splits prod.splits sum.splits)
qed

lemma ForMessage_evolves: "evolves env s (snd (ForMessage env m s))"
  by (simp add: ForMessage_def MessageDescriptorProto_evolves)

lemma EnumRawDescriptor_intact: "evolves_intact env s (snd (EnumRawDescriptor env e s))"
  by (cases "accessor e") (simp_all add: EnumRawDescriptor_def evolves_intact.intros)

lemma MessageRawDescriptor_intact: "evolves_intact env s (snd (MessageRawDescriptor env m s))"
  by (cases "accessor m") (simp_all add: MessageRawDescriptor_def evolves_intact.intros)

lemma EnumRawDescriptor_result_ok:
  "caller_ok s e \<Longrightarrow>
   caller_buffer_ok (snd (EnumRawDescriptor env e s)) (fst (fst (EnumRawDescriptor env e s)))"
  by (cases "accessor e")
    (auto simp: EnumRawDescriptor_def caller_ok_def deriveRawDescriptor_result_ok)

lemma MessageRawDescriptor_result_ok:
  "caller_ok s m \<Longrightarrow>
   caller_buffer_ok (snd (MessageRawDescriptor env m s)) (fst (fst (MessageRawDescriptor env m s)))"
  by (cases "accessor m")
    (auto simp: MessageRawDescriptor_def caller_ok_def deriveRawDescriptor_result_ok)

lemma EnumDescriptorProto_intact:
  assumes "caller_ok s e"
  shows "evolves_intact env s (snd (EnumDescriptorProto env e s))"
proof -
  obtain rawDesc idxs s1 where r: "EnumRawDescriptor env e s = ((rawDesc, idxs), s1)"
    by (metis prod.collapse)
  have s1: "evolves_intact env s s1" using EnumRawDescriptor_intact[of env s e] r by simp
  have ok: "caller_buffer_ok s1 rawDesc" using EnumRawDescriptor_result_ok[OF assms, of env] r by simp
  have s2: "evolves_intact env s (snd (deriveFileDescriptor env rawDesc s1))"
    using s1 ok by (rule intact_file)
  show ?thesis
    using r s1 s2
    by (auto simp: EnumDescriptorProto_def split: option.splits prod.splits sum.splits)
qed

lemma MessageDescriptorProto_intact:
  assumes "caller_ok s m"
  shows "evolves_intact env s (snd (MessageDescriptorProto env m s))"
proof -
  obtain rawDesc idxs s1 where r: "MessageRawDescriptor env m s = ((rawDesc, idxs), s1)"
    by (metis prod.collapse)
  have s1: "evolves_intact env s s1" using MessageRawDescriptor_intact[of env s m] r by simp
  have ok: "caller_buffer_ok s1 rawDesc"
    using MessageRawDescriptor_result_ok[OF assms, of env] r by simp
  have s2: "evolves_intact env s (snd (deriveFileDescriptor env rawDesc s1))"
    using s1 ok by (rule intact_file)
  show ?thesis
    using r s1 s2
    by (auto simp: MessageDescriptorProto_def split: option.splits prod.splits sum.splits)
qed

lemma cached_has_root:
  "raw_inv env s \<Longrightarrow> rawDescCache s d = Some r \<Longrightarrow>
   \<exists>f n. root_file d = Some f \<and>
     r = \<lparr>fileDesc = Slice (Alloc n) (derived env f), indexes = Some (rev (leaf_to_root d))\<rparr>"
  unfolding raw_inv_def by blast

lemma deriveRawDescriptor_no_root:
  assumes "raw_inv env s" and "root_file d = None"
  shows "deriveRawDescriptor env d s = ((nil_bytes, None), s)"
proof (cases "rawDescCache s d")
  case None
  then show ?thesis using assms by (simp add: deriveRawDescriptor_none)
next
  case (Some r)
  from cached_has_root[OF assms(1) Some] assms(2) show ?thesis by simp
qed

lemma deriveRawDescriptor_root:
  assumes "raw_inv env s" and "root_file d = Some f"
  shows "\<exists>n. fst (deriveRawDescriptor env d s) =
            (Slice (Alloc n) (derived env f), Some (rev (leaf_to_root d))) \<and>
          rawDescCache (snd (deriveRawDescriptor env d s)) d =
            Some \<lparr>fileDesc = Slice (Alloc n) (derived env f),
                  indexes = Some (rev (leaf_to_root d))\<rparr>"
proof (cases "rawDescCache s d")
  case None
  then show ?thesis using assms by (simp add: deriveRawDescriptor_miss)
next
  case (Some r)
  from cached_has_root[OF assms(1) Some] assms(2) obtain n where
    "r = \<lparr>fileDesc = Slice (Alloc n) (derived env f), indexes = Some (rev (leaf_to_root d))\<rparr>"
    by auto
  then show ?thesis using Some by (simp add: deriveRawDescriptor_hit)
qed

section \<open>The capability gap\<close>

text \<open>
  C1. In every state that evolves from the empty caches, for every descriptor whose
  ascent reaches a nil parent before a file descriptor: \<^verbatim>\<open>deriveRawDescriptor\<close>
  returns the pair (nil, nil), and each of the four exported functions, on a value
  without accessor that the registry maps to the descriptor, returns its pair of nils
  and does not panic. The caches stay as they were.
\<close>

theorem capability_gap:
  assumes "evolves env init_state s" and "root_file d = None"
  shows "deriveRawDescriptor env d s = ((nil_bytes, None), s) \<and>
    (\<forall>v. accessor v = None \<longrightarrow> EnumTypeOf env v = d \<longrightarrow>
       EnumRawDescriptor env v s = ((nil_bytes, None), s) \<and>
       EnumDescriptorProto env v s = (Inr (None, None), s)) \<and>
    (\<forall>v. accessor v = None \<longrightarrow> MessageTypeOf env v = d \<longrightarrow>
       MessageRawDescriptor env v s = ((nil_bytes, None), s) \<and>
       MessageDescriptorProto env v s = (Inr (None, None), s))"
proof -
  have raw: "deriveRawDescriptor env d s = ((nil_bytes, None), s)"
    using assms reachable_raw_inv deriveRawDescriptor_no_root by blast
  show ?thesis
    using raw
    by (simp add: EnumRawDescriptor_def MessageRawDescriptor_def EnumDescriptorProto_def
        MessageDescriptorProto_def)
qed

lemma demo_state_reachable: "evolves demo_env init_state demo_state"
  unfolding demo_state_def by (rule evolves_raw) (rule evolves_refl)

lemma demo_state_intact: "evolves_intact demo_env init_state demo_state"
  unfolding demo_state_def by (rule intact_raw) (rule intact_refl)

lemma demo_roots:
  "root_file demo_Orphan = None" "root_file demo_Foo = Some demo_file"
  "root_file demo_Bar = Some demo_file" "root_file demo_Color = Some demo_file"
  "root_file demo_Top = Some demo_file"
  by (simp_all add: demo_Orphan_def demo_Foo_def demo_Bar_def demo_Color_def demo_Top_def
      demo_file_def)

theorem capability_gap_witness:
  "evolves demo_env init_state demo_state \<and> root_file demo_Orphan = None \<and>
   accessor (demo_plain 2) = None \<and> EnumTypeOf demo_env (demo_plain 2) = demo_Orphan \<and>
   MessageTypeOf demo_env (demo_plain 2) = demo_Orphan \<and>
   deriveRawDescriptor demo_env demo_Orphan demo_state = ((nil_bytes, None), demo_state) \<and>
   EnumRawDescriptor demo_env (demo_plain 2) demo_state = ((nil_bytes, None), demo_state) \<and>
   EnumDescriptorProto demo_env (demo_plain 2) demo_state = (Inr (None, None), demo_state) \<and>
   MessageRawDescriptor demo_env (demo_plain 2) demo_state = ((nil_bytes, None), demo_state) \<and>
   MessageDescriptorProto demo_env (demo_plain 2) demo_state = (Inr (None, None), demo_state)"
proof -
  have h1: "evolves demo_env init_state demo_state" by (rule demo_state_reachable)
  have h2: "root_file demo_Orphan = None" by (rule demo_roots)
  have h3: "accessor (demo_plain 2) = None \<and> EnumTypeOf demo_env (demo_plain 2) = demo_Orphan \<and>
   MessageTypeOf demo_env (demo_plain 2) = demo_Orphan"
    by (simp add: demo_plain_def demo_env_def)
  show ?thesis
    using h1 h2 h3 capability_gap [OF h1 h2] by simp
qed

section \<open>The index path\<close>

text \<open>
  C3. In every state that evolves from the empty caches, for every descriptor with a
  root file, the index path that \<^verbatim>\<open>deriveRawDescriptor\<close> returns is the reverse of
  the \<^verbatim>\<open>Index()\<close> values collected from the leaf up to the root. A top-level message
  with index 0 has path [0]; a message with index 0 nested in it has path [0, 0].
\<close>

theorem index_path_is_reversed_ascent:
  assumes "evolves env init_state s"
  shows "(\<forall>d. root_file d \<noteq> None \<longrightarrow>
            snd (fst (deriveRawDescriptor env d s)) = Some (rev (leaf_to_root d))) \<and>
         (\<forall>fl foo bar i n j m.
            kind fl = FileKind \<longrightarrow> foo = Descriptor i MessageKind n 0 (Some fl) \<longrightarrow>
            bar = Descriptor j MessageKind m 0 (Some foo) \<longrightarrow>
            snd (fst (deriveRawDescriptor env foo s)) = Some [0] \<and>
            snd (fst (deriveRawDescriptor env bar s)) = Some [0, 0])"
proof -
  have inv: "raw_inv env s" using assms by (rule reachable_raw_inv)
  have gen: "\<And>d. root_file d \<noteq> None \<Longrightarrow>
      snd (fst (deriveRawDescriptor env d s)) = Some (rev (leaf_to_root d))"
  proof -
    fix d assume "root_file d \<noteq> None"
    then obtain f where "root_file d = Some f" by auto
    from deriveRawDescriptor_root[OF inv this] show
      "snd (fst (deriveRawDescriptor env d s)) = Some (rev (leaf_to_root d))" by auto
  qed
  have part: "\<And>fl foo bar i n j m.
            kind fl = FileKind \<Longrightarrow> foo = Descriptor i MessageKind n 0 (Some fl) \<Longrightarrow>
            bar = Descriptor j MessageKind m 0 (Some foo) \<Longrightarrow>
            snd (fst (deriveRawDescriptor env foo s)) = Some [0] \<and>
            snd (fst (deriveRawDescriptor env bar s)) = Some [0, 0]"
  proof -
    fix fl foo bar :: descriptor and i j :: nat and n m :: string
    assume k: "kind fl = FileKind" and foo: "foo = Descriptor i MessageKind n 0 (Some fl)"
      and bar: "bar = Descriptor j MessageKind m 0 (Some foo)"
    have "root_file foo \<noteq> None" "leaf_to_root foo = [0]" using k foo by simp_all
    moreover have "root_file bar \<noteq> None" "leaf_to_root bar = [0, 0]" using k foo bar by simp_all
    ultimately show "snd (fst (deriveRawDescriptor env foo s)) = Some [0] \<and>
            snd (fst (deriveRawDescriptor env bar s)) = Some [0, 0]"
      using gen[of foo] gen[of bar] by simp
  qed
  show ?thesis using gen part by blast
qed

theorem index_path_is_reversed_ascent_witness:
  "evolves demo_env init_state demo_state \<and>
   root_file demo_Color \<noteq> None \<and> kind demo_file = FileKind \<and>
   demo_Foo = Descriptor 1 MessageKind ''Foo'' 0 (Some demo_file) \<and>
   demo_Bar = Descriptor 2 MessageKind ''Bar'' 0 (Some demo_Foo) \<and>
   snd (fst (deriveRawDescriptor demo_env demo_Color demo_state)) = Some [0, 0] \<and>
   snd (fst (deriveRawDescriptor demo_env demo_Foo demo_state)) = Some [0] \<and>
   snd (fst (deriveRawDescriptor demo_env demo_Bar demo_state)) = Some [0, 0]"
proof -
  have h1: "evolves demo_env init_state demo_state" by (rule demo_state_reachable)
  have h2: "root_file demo_Color \<noteq> None \<and> kind demo_file = FileKind \<and>
   demo_Foo = Descriptor 1 MessageKind ''Foo'' 0 (Some demo_file) \<and>
   demo_Bar = Descriptor 2 MessageKind ''Bar'' 0 (Some demo_Foo)"
    by (simp add: demo_roots demo_file_def demo_Foo_def demo_Bar_def)
  have h3: "rev (leaf_to_root demo_Color) = [0, 0]"
    by (simp add: demo_Color_def demo_Foo_def demo_file_def)
  from index_path_is_reversed_ascent [OF h1] have
    a: "root_file demo_Color \<noteq> None \<longrightarrow>
        snd (fst (deriveRawDescriptor demo_env demo_Color demo_state)) = Some (rev (leaf_to_root demo_Color))"
    and b: "kind demo_file = FileKind \<longrightarrow> demo_Foo = Descriptor 1 MessageKind ''Foo'' 0 (Some demo_file) \<longrightarrow>
            demo_Bar = Descriptor 2 MessageKind ''Bar'' 0 (Some demo_Foo) \<longrightarrow>
            snd (fst (deriveRawDescriptor demo_env demo_Foo demo_state)) = Some [0] \<and>
            snd (fst (deriveRawDescriptor demo_env demo_Bar demo_state)) = Some [0, 0]"
    by blast+
  show ?thesis using h1 h2 h3 a b by simp
qed

section \<open>Declarations and their places\<close>

lemma index_at: "index xs i = (case at xs i of None \<Rightarrow> Inl IndexOutOfRange | Some x \<Rightarrow> Inr x)"
  by (simp add: at_def index_def)

lemma pbind_return [simp]: "pbind r Inr = r"
  by (cases r) simp_all

lemma leaf_to_root_nonempty: "leaf_to_root d \<noteq> []"
  by (induction d rule: leaf_to_root.induct) simp_all

lemma locate_message_snoc:
  assumes "xs \<noteq> []"
  shows "locate_message fd (xs @ [i]) =
         pbind (locate_message fd xs) (\<lambda>md. index (NestedType md) i)"
proof -
  obtain x xs' where xs: "xs = x # xs'" using assms by (cases xs) auto
  have "descend md (xs' @ [i]) = pbind (descend md xs') (\<lambda>md'. index (NestedType md') i)" for md
    by (simp add: descend_append)
  then show ?thesis
    using xs by (simp add: locate_message_Cons pbind_assoc)
qed

lemma locate_enum_snoc_message:
  assumes "xs \<noteq> []"
  shows "locate_enum fd (xs @ [i]) =
         pbind (locate_message fd xs) (\<lambda>md. index (NestedEnumType md) i)"
proof -
  obtain x xs' where xs: "xs = x # xs'" using assms by (cases xs) auto
  show ?thesis
    using xs locate_enum_snoc[of fd x xs' i] by (simp add: locate_message_Cons pbind_assoc)
qed

lemma locate_message_decl:
  "root_file d = Some f \<Longrightarrow>
   locate_message (ToFileDescriptorProto env f) (rev (leaf_to_root d)) =
     of_opt (message_decl_of env d)"
proof (induction d rule: root_file.induct)
  case (1 i k n ix)
  then show ?case by simp
next
  case (2 i k n ix p)
  show ?case
  proof (cases "kind p = FileKind")
    case True
    then have "f = p" using "2.prems" by simp
    then show ?thesis
      using True by (simp add: locate_message_Cons index_at of_opt_def split: option.splits)
  next
    case False
    then have root: "root_file p = Some f" using "2.prems" by simp
    have ih: "locate_message (ToFileDescriptorProto env f) (rev (leaf_to_root p)) =
        of_opt (message_decl_of env p)"
      using "2.IH"[OF False root] .
    have ne: "rev (leaf_to_root p) \<noteq> []" using leaf_to_root_nonempty by simp
    show ?thesis
      using False ih locate_message_snoc[OF ne, of "ToFileDescriptorProto env f" ix]
      by (simp add: index_at of_opt_def split: option.splits)
  qed
qed

lemma locate_enum_decl:
  "root_file d = Some f \<Longrightarrow>
   locate_enum (ToFileDescriptorProto env f) (rev (leaf_to_root d)) =
     of_opt (enum_decl_of env d)"
proof (cases d)
  case (Descriptor i k n ix parent)
  assume root: "root_file d = Some f"
  then obtain p where p: "parent = Some p" using Descriptor by (cases parent) auto
  show ?thesis
  proof (cases "kind p = FileKind")
    case True
    then have "f = p" using root Descriptor p by simp
    then show ?thesis
      using True Descriptor p
      by (simp add: locate_enum_single index_at of_opt_def split: option.splits)
  next
    case False
    then have rootp: "root_file p = Some f" using root Descriptor p by simp
    have ne: "rev (leaf_to_root p) \<noteq> []" using leaf_to_root_nonempty by simp
    show ?thesis
      using False Descriptor p locate_message_decl[OF rootp, of env]
        locate_enum_snoc_message[OF ne, of "ToFileDescriptorProto env f" ix]
      by (simp add: index_at of_opt_def split: option.splits)
  qed
qed

lemma derive_then_decode:
  assumes inv: "raw_inv env s" and finv: "file_inv env s" and root: "root_file d = Some f"
    and ne: "derived env f \<noteq> []" and dec: "decode env (derived env f) = Inr t"
  shows "\<exists>n s1. deriveRawDescriptor env d s =
           ((Slice (Alloc n) (derived env f), Some (rev (leaf_to_root d))), s1) \<and>
         fst (deriveFileDescriptor env (Slice (Alloc n) (derived env f)) s1) = Inr t"
proof -
  let ?s1 = "snd (deriveRawDescriptor env d s)"
  from deriveRawDescriptor_root[OF inv root] obtain n where
    res: "fst (deriveRawDescriptor env d s) =
            (Slice (Alloc n) (derived env f), Some (rev (leaf_to_root d)))"
    and cached: "rawDescCache ?s1 d =
            Some \<lparr>fileDesc = Slice (Alloc n) (derived env f),
                  indexes = Some (rev (leaf_to_root d))\<rparr>"
    by blast
  have inv1: "raw_inv env ?s1" using inv by (rule raw_inv_raw)
  have finv1: "file_inv env ?s1" using finv by (rule file_inv_raw)
  have "fst (deriveFileDescriptor env (Slice (Alloc n) (derived env f)) ?s1) = Inr t"
  proof (cases "fileDescCache ?s1 (Alloc n)")
    case None
    then show ?thesis using ne dec by (simp add: deriveFileDescriptor_miss)
  next
    case (Some t')
    from finv1 Some obtain d' r' bs' where o: "rawDescCache ?s1 d' = Some r'"
      "fileDesc r' = Slice (Alloc n) bs'" "decode env bs' = Inr t'"
      unfolding file_inv_def by blast
    have "d' = d"
      using inv1 o(1) cached o(2) unfolding raw_inv_def
      by (metis rawDesc.select_convs(1))
    then have "bs' = derived env f" using o cached by auto
    then have "t' = t" using o dec by simp
    then show ?thesis using Some ne by (simp add: deriveFileDescriptor_hit)
  qed
  moreover have "deriveRawDescriptor env d s =
           ((Slice (Alloc n) (derived env f), Some (rev (leaf_to_root d))), ?s1)"
    using res by (metis prod.collapse)
  ultimately show ?thesis by blast
qed

lemma demo_derived: "derived demo_env demo_file = [31, 139, 10, 3]"
  by (simp add: derived_def demo_env_def)

lemma demo_decode: "decode demo_env [31, 139, 10, 3] = Inr demo_proto"
  by (simp add: decode_def demo_env_def)

lemma demo_state_eq:
  "demo_state =
     \<lparr>rawDescCache = [demo_Foo \<mapsto> \<lparr>fileDesc = Slice (Alloc 0) [31, 139, 10, 3], indexes = Some [0]\<rparr>],
      fileDescCache = Map.empty, next_alloc = Suc 0\<rparr>"
proof -
  have none: "rawDescCache init_state demo_Foo = None" by (simp add: init_state_def)
  have path: "rev (leaf_to_root demo_Foo) = [0]" by (simp add: demo_Foo_def demo_file_def)
  show ?thesis
    using deriveRawDescriptor_miss[OF none demo_roots(2), of demo_env]
    by (simp add: demo_state_def demo_derived init_state_def path)
qed

section \<open>Determinism and the raw-descriptor cache\<close>

text \<open>
  C5. For a descriptor with a root file, in states that evolve from the empty caches:
  any two calls of \<^verbatim>\<open>deriveRawDescriptor\<close> return the same compressed bytes and the
  same index path; every call after a first call returns what the first returned, the
  same buffer included; and once the raw-descriptor cache holds a value for the
  descriptor, every later call returns that value.
\<close>

theorem derivation_deterministic:
  assumes "evolves env init_state s1" and "evolves env init_state s2"
    and "root_file d = Some f"
  shows "contents (fst (fst (deriveRawDescriptor env d s1))) =
           contents (fst (fst (deriveRawDescriptor env d s2))) \<and>
         snd (fst (deriveRawDescriptor env d s1)) = snd (fst (deriveRawDescriptor env d s2)) \<and>
         (\<forall>s3. evolves env (snd (deriveRawDescriptor env d s1)) s3 \<longrightarrow>
            fst (deriveRawDescriptor env d s3) = fst (deriveRawDescriptor env d s1)) \<and>
         (\<forall>v s3. rawDescCache s1 d = Some v \<longrightarrow> evolves env s1 s3 \<longrightarrow>
            fst (deriveRawDescriptor env d s3) = (fileDesc v, indexes v))"
proof -
  have inv1: "raw_inv env s1" and inv2: "raw_inv env s2"
    using assms reachable_raw_inv by blast+
  from deriveRawDescriptor_root[OF inv1 assms(3)] obtain n1 where
    r1: "fst (deriveRawDescriptor env d s1) =
           (Slice (Alloc n1) (derived env f), Some (rev (leaf_to_root d)))"
    and c1: "rawDescCache (snd (deriveRawDescriptor env d s1)) d =
           Some \<lparr>fileDesc = Slice (Alloc n1) (derived env f),
                 indexes = Some (rev (leaf_to_root d))\<rparr>"
    by blast
  from deriveRawDescriptor_root[OF inv2 assms(3)] obtain n2 where
    r2: "fst (deriveRawDescriptor env d s2) =
           (Slice (Alloc n2) (derived env f), Some (rev (leaf_to_root d)))"
    by blast
  have later: "fst (deriveRawDescriptor env d s3) = fst (deriveRawDescriptor env d s1)"
    if "evolves env (snd (deriveRawDescriptor env d s1)) s3" for s3
  proof -
    have "rawDescCache s3 d =
           Some \<lparr>fileDesc = Slice (Alloc n1) (derived env f),
                 indexes = Some (rev (leaf_to_root d))\<rparr>"
      using that c1 by (rule evolves_rawDescCache_mono)
    then show ?thesis using r1 by (simp add: deriveRawDescriptor_hit)
  qed
  have cached: "fst (deriveRawDescriptor env d s3) = (fileDesc v, indexes v)"
    if "rawDescCache s1 d = Some v" and "evolves env s1 s3" for v s3
  proof -
    have "rawDescCache s3 d = Some v" using that(2,1) by (rule evolves_rawDescCache_mono)
    then show ?thesis by (simp add: deriveRawDescriptor_hit)
  qed
  show ?thesis using r1 r2 later cached by simp
qed

theorem derivation_deterministic_witness:
  "evolves demo_env init_state demo_state \<and> evolves demo_env init_state init_state \<and>
   root_file demo_Foo = Some demo_file \<and>
   rawDescCache demo_state demo_Foo =
     Some \<lparr>fileDesc = Slice (Alloc 0) [31, 139, 10, 3], indexes = Some [0]\<rparr> \<and>
   evolves demo_env demo_state demo_state \<and>
   evolves demo_env (snd (deriveRawDescriptor demo_env demo_Foo demo_state)) demo_state \<and>
   contents (fst (fst (deriveRawDescriptor demo_env demo_Foo demo_state))) =
     contents (fst (fst (deriveRawDescriptor demo_env demo_Foo init_state))) \<and>
   snd (fst (deriveRawDescriptor demo_env demo_Foo demo_state)) =
     snd (fst (deriveRawDescriptor demo_env demo_Foo init_state)) \<and>
   fst (deriveRawDescriptor demo_env demo_Foo demo_state) =
     (Slice (Alloc 0) [31, 139, 10, 3], Some [0])"
proof -
  have h1: "evolves demo_env init_state demo_state" by (rule demo_state_reachable)
  have h2: "evolves demo_env init_state init_state" by (rule evolves_refl)
  have h3: "root_file demo_Foo = Some demo_file" by (rule demo_roots)
  have h4: "rawDescCache demo_state demo_Foo =
     Some \<lparr>fileDesc = Slice (Alloc 0) [31, 139, 10, 3], indexes = Some [0]\<rparr>"
    by (simp add: demo_state_eq)
  have h5: "evolves demo_env demo_state demo_state" by (rule evolves_refl)
  have same: "snd (deriveRawDescriptor demo_env demo_Foo demo_state) = demo_state"
    using h4 by (simp add: deriveRawDescriptor_hit)
  have h6: "evolves demo_env (snd (deriveRawDescriptor demo_env demo_Foo demo_state)) demo_state"
    unfolding same by (rule evolves_refl)
  from derivation_deterministic [OF h1 h2 h3] have
    a: "contents (fst (fst (deriveRawDescriptor demo_env demo_Foo demo_state))) =
     contents (fst (fst (deriveRawDescriptor demo_env demo_Foo init_state)))"
    and b: "snd (fst (deriveRawDescriptor demo_env demo_Foo demo_state)) =
     snd (fst (deriveRawDescriptor demo_env demo_Foo init_state))"
    and c: "rawDescCache demo_state demo_Foo =
       Some \<lparr>fileDesc = Slice (Alloc 0) [31, 139, 10, 3], indexes = Some [0]\<rparr> \<longrightarrow>
       evolves demo_env demo_state demo_state \<longrightarrow>
       fst (deriveRawDescriptor demo_env demo_Foo demo_state) =
         (fileDesc \<lparr>fileDesc = Slice (Alloc 0) [31, 139, 10, 3], indexes = Some [0]\<rparr>,
          indexes \<lparr>fileDesc = Slice (Alloc 0) [31, 139, 10, 3], indexes = Some [0]\<rparr>)"
    by blast+
  show ?thesis using h1 h2 h3 h4 h5 h6 a b c by simp
qed

section \<open>The decompression and the file-tree cache\<close>

text \<open>
  C6, as amended. For every byte input that is not validly GZIP-compressed, or whose
  decompressed content does not parse as a root tree, and whose first byte's address
  is not a key of the file-tree cache: \<^verbatim>\<open>deriveFileDescriptor\<close> panics, and leaves
  the caches as they were. A nil or empty input panics at \<^verbatim>\<open>&rawDesc[0]\<close>.
\<close>

theorem undecodable_input_panics:
  assumes "\<not> valid_input env (contents b)"
    and "\<forall>a. addr_of_first b = Inr a \<longrightarrow> fileDescCache s a = None"
  shows "isl (fst (deriveFileDescriptor env b s)) \<and> snd (deriveFileDescriptor env b s) = s"
proof (cases "contents b = []")
  case True
  then show ?thesis by (simp add: deriveFileDescriptor_empty)
next
  case False
  then obtain a bs where b: "b = Slice a bs" and bs: "bs \<noteq> []" by (cases b) auto
  have miss: "fileDescCache s a = None" using assms(2) b bs by simp
  have "isl (decode env bs)"
    using assms(1) b
    by (auto simp: valid_input_def gunzip_def decode_def split: sum.splits)
  then obtain p where "decode env bs = Inl p" by (cases "decode env bs") auto
  then show ?thesis using b bs miss by (simp add: deriveFileDescriptor_miss)
qed

theorem undecodable_input_panics_witness:
  "\<not> valid_input demo_env (contents (Slice (Extern 7) [31])) \<and>
   addr_of_first (Slice (Extern 7) [31]) = Inr (Extern 7) \<and>
   fileDescCache init_state (Extern 7) = None \<and>
   deriveFileDescriptor demo_env (Slice (Extern 7) [31]) init_state =
     (Inl (PanicErr ''gzip: invalid header''), init_state)"
proof -
  have h1: "\<not> valid_input demo_env (contents (Slice (Extern 7) [31]))"
    by (simp add: valid_input_def gunzip_def demo_env_def)
  have h2: "\<forall>a. addr_of_first (Slice (Extern 7) [31]) = Inr a \<longrightarrow> fileDescCache init_state a = None"
    by (simp add: init_state_def)
  have v: "deriveFileDescriptor demo_env (Slice (Extern 7) [31]) init_state =
     (Inl (PanicErr ''gzip: invalid header''), init_state)"
    by (simp add: deriveFileDescriptor_def Load_def decode_def demo_env_def init_state_def)
  show ?thesis
    using h1 h2 v undecodable_input_panics [OF h1 h2] by (simp add: init_state_def)
qed

text \<open>
  C6 as stated fails: the cache is read before the bytes are. After a call with a valid
  buffer, a call with a slice that starts at the same address and holds undecodable
  bytes (here the first byte of the buffer alone) returns the cached tree.
\<close>

theorem cached_buffer_is_not_decoded:
  "evolves_intact demo_env init_state
     (snd (deriveFileDescriptor demo_env (Slice (Extern 7) [31, 139, 10, 3]) init_state)) \<and>
   \<not> valid_input demo_env (contents (Slice (Extern 7) [31])) \<and>
   fst (deriveFileDescriptor demo_env (Slice (Extern 7) [31])
         (snd (deriveFileDescriptor demo_env (Slice (Extern 7) [31, 139, 10, 3]) init_state)))
     = Inr demo_proto"
proof -
  have e: "evolves_intact demo_env init_state
     (snd (deriveFileDescriptor demo_env (Slice (Extern 7) [31, 139, 10, 3]) init_state))"
    by (rule intact_file) (simp_all add: intact_refl)
  have h1: "\<not> valid_input demo_env (contents (Slice (Extern 7) [31]))"
    by (simp add: valid_input_def gunzip_def demo_env_def)
  have first: "deriveFileDescriptor demo_env (Slice (Extern 7) [31, 139, 10, 3]) init_state =
     (Inr demo_proto, init_state\<lparr>fileDescCache := [Extern 7 \<mapsto> demo_proto]\<rparr>)"
    by (simp add: deriveFileDescriptor_miss demo_decode init_state_def)
  have second: "fst (deriveFileDescriptor demo_env (Slice (Extern 7) [31])
       (init_state\<lparr>fileDescCache := [Extern 7 \<mapsto> demo_proto]\<rparr>)) = Inr demo_proto"
    by (simp add: deriveFileDescriptor_hit)
  show ?thesis using e h1 first second by simp
qed

text \<open>
  C8. The file-tree cache is keyed by the address of the first byte, not by the
  content. After a call that returned a tree for a buffer, a second call with the same
  buffer returns the same tree whatever the decoding functions are, so nothing is
  decoded, and leaves the caches as they are. A buffer with the same content at another
  address, not yet a key, misses the cache: the call decodes the content and stores the
  tree under the new address.
\<close>

theorem file_tree_cache_keyed_by_identity:
  assumes "fst (deriveFileDescriptor env (Slice a bs) s) = Inr t"
  shows "(\<forall>env'. deriveFileDescriptor env' (Slice a bs)
                   (snd (deriveFileDescriptor env (Slice a bs) s)) =
                 (Inr t, snd (deriveFileDescriptor env (Slice a bs) s))) \<and>
         (\<forall>a' env'. a' \<noteq> a \<longrightarrow> fileDescCache s a' = None \<longrightarrow>
            deriveFileDescriptor env' (Slice a' bs)
              (snd (deriveFileDescriptor env (Slice a bs) s)) =
            (case decode env' bs of
               Inl p \<Rightarrow> (Inl p, snd (deriveFileDescriptor env (Slice a bs) s))
             | Inr t' \<Rightarrow>
                 (Inr t',
                  (snd (deriveFileDescriptor env (Slice a bs) s))
                    \<lparr>fileDescCache :=
                       (fileDescCache (snd (deriveFileDescriptor env (Slice a bs) s)))(a' \<mapsto> t')\<rparr>)))"
proof -
  let ?s1 = "snd (deriveFileDescriptor env (Slice a bs) s)"
  have bs: "bs \<noteq> []"
    using assms by (cases "bs = []") (simp_all add: deriveFileDescriptor_empty)
  have stored: "fileDescCache ?s1 a = Some t"
  proof (cases "fileDescCache s a")
    case (Some t0)
    then show ?thesis using assms bs by (simp add: deriveFileDescriptor_hit)
  next
    case None
    then show ?thesis
      using assms bs by (cases "decode env bs") (simp_all add: deriveFileDescriptor_miss)
  qed
  have other: "fileDescCache ?s1 a' = None" if "a' \<noteq> a" and "fileDescCache s a' = None" for a'
  proof (cases "fileDescCache s a")
    case (Some t0)
    then show ?thesis using that bs by (simp add: deriveFileDescriptor_hit)
  next
    case None
    then show ?thesis
      using that bs by (cases "decode env bs") (simp_all add: deriveFileDescriptor_miss)
  qed
  show ?thesis
    using bs stored other by (simp add: deriveFileDescriptor_hit deriveFileDescriptor_miss)
qed

theorem file_tree_cache_keyed_by_identity_witness:
  "fst (deriveFileDescriptor demo_env (Slice (Extern 7) [31, 139, 10, 3]) init_state) = Inr demo_proto \<and>
   Extern 9 \<noteq> Extern 7 \<and> fileDescCache init_state (Extern 9) = None \<and>
   deriveFileDescriptor demo_env (Slice (Extern 7) [31, 139, 10, 3])
     (init_state\<lparr>fileDescCache := [Extern 7 \<mapsto> demo_proto]\<rparr>) =
     (Inr demo_proto, init_state\<lparr>fileDescCache := [Extern 7 \<mapsto> demo_proto]\<rparr>) \<and>
   deriveFileDescriptor demo_env (Slice (Extern 9) [31, 139, 10, 3])
     (init_state\<lparr>fileDescCache := [Extern 7 \<mapsto> demo_proto]\<rparr>) =
     (Inr demo_proto,
      init_state\<lparr>fileDescCache := [Extern 7 \<mapsto> demo_proto, Extern 9 \<mapsto> demo_proto]\<rparr>)"
proof -
  have first: "deriveFileDescriptor demo_env (Slice (Extern 7) [31, 139, 10, 3]) init_state =
     (Inr demo_proto, init_state\<lparr>fileDescCache := [Extern 7 \<mapsto> demo_proto]\<rparr>)"
    by (simp add: deriveFileDescriptor_miss demo_decode init_state_def)
  have h1: "fst (deriveFileDescriptor demo_env (Slice (Extern 7) [31, 139, 10, 3]) init_state) =
     Inr demo_proto"
    using first by simp
  have h2: "Extern 9 \<noteq> Extern 7 \<and> fileDescCache init_state (Extern 9) = None"
    by (simp add: init_state_def)
  from file_tree_cache_keyed_by_identity [OF h1] have
    a: "deriveFileDescriptor demo_env (Slice (Extern 7) [31, 139, 10, 3])
          (snd (deriveFileDescriptor demo_env (Slice (Extern 7) [31, 139, 10, 3]) init_state)) =
        (Inr demo_proto,
         snd (deriveFileDescriptor demo_env (Slice (Extern 7) [31, 139, 10, 3]) init_state))"
    and b: "Extern 9 \<noteq> Extern 7 \<longrightarrow> fileDescCache init_state (Extern 9) = None \<longrightarrow>
        deriveFileDescriptor demo_env (Slice (Extern 9) [31, 139, 10, 3])
          (snd (deriveFileDescriptor demo_env (Slice (Extern 7) [31, 139, 10, 3]) init_state)) =
        (case decode demo_env [31, 139, 10, 3] of
           Inl p \<Rightarrow>
             (Inl p, snd (deriveFileDescriptor demo_env (Slice (Extern 7) [31, 139, 10, 3]) init_state))
         | Inr t' \<Rightarrow>
             (Inr t',
              (snd (deriveFileDescriptor demo_env (Slice (Extern 7) [31, 139, 10, 3]) init_state))
                \<lparr>fileDescCache :=
                   (fileDescCache
                     (snd (deriveFileDescriptor demo_env (Slice (Extern 7) [31, 139, 10, 3])
                        init_state)))(Extern 9 \<mapsto> t')\<rparr>))"
    by blast+
  show ?thesis
    using h1 h2 a b by (simp add: first demo_decode)
qed

section \<open>The round trip\<close>

lemma MessageDescriptorProto_derived:
  assumes inv: "raw_inv env s" and finv: "file_inv env s" and root: "root_file d = Some f"
    and ne: "derived env f \<noteq> []"
    and dec: "decode env (derived env f) = Inr (ToFileDescriptorProto env f)"
    and acc: "accessor v = None" and reg: "MessageTypeOf env v = d"
    and decl: "message_decl_of env d = Some md"
  shows "fst (MessageDescriptorProto env v s) = Inr (Some (ToFileDescriptorProto env f), Some md)"
proof -
  from derive_then_decode[OF inv finv root ne dec] obtain n s1 where
    raw: "deriveRawDescriptor env d s =
           ((Slice (Alloc n) (derived env f), Some (rev (leaf_to_root d))), s1)"
    and dfile: "fst (deriveFileDescriptor env (Slice (Alloc n) (derived env f)) s1) =
           Inr (ToFileDescriptorProto env f)"
    by blast
  obtain s2 where dfile2: "deriveFileDescriptor env (Slice (Alloc n) (derived env f)) s1 =
      (Inr (ToFileDescriptorProto env f), s2)"
    using dfile by (metis prod.collapse)
  have nav: "locate_message (ToFileDescriptorProto env f) (rev (leaf_to_root d)) = Inr md"
    using locate_message_decl[OF root, of env] decl by (simp add: of_opt_def)
  show ?thesis
    using acc reg raw dfile2 nav
    by (simp add: MessageDescriptorProto_def MessageRawDescriptor_def)
qed

lemma EnumDescriptorProto_derived:
  assumes inv: "raw_inv env s" and finv: "file_inv env s" and root: "root_file d = Some f"
    and ne: "derived env f \<noteq> []"
    and dec: "decode env (derived env f) = Inr (ToFileDescriptorProto env f)"
    and acc: "accessor v = None" and reg: "EnumTypeOf env v = d"
    and decl: "enum_decl_of env d = Some ed"
  shows "fst (EnumDescriptorProto env v s) = Inr (Some (ToFileDescriptorProto env f), Some ed)"
proof -
  from derive_then_decode[OF inv finv root ne dec] obtain n s1 where
    raw: "deriveRawDescriptor env d s =
           ((Slice (Alloc n) (derived env f), Some (rev (leaf_to_root d))), s1)"
    and dfile: "fst (deriveFileDescriptor env (Slice (Alloc n) (derived env f)) s1) =
           Inr (ToFileDescriptorProto env f)"
    by blast
  obtain s2 where dfile2: "deriveFileDescriptor env (Slice (Alloc n) (derived env f)) s1 =
      (Inr (ToFileDescriptorProto env f), s2)"
    using dfile by (metis prod.collapse)
  have nav: "locate_enum (ToFileDescriptorProto env f) (rev (leaf_to_root d)) = Inr ed"
    using locate_enum_decl[OF root, of env] decl by (simp add: of_opt_def)
  show ?thesis
    using acc reg raw dfile2 nav
    by (simp add: EnumDescriptorProto_def EnumRawDescriptor_def)
qed

lemma at_nth: "i < length xs \<Longrightarrow> at xs (int i) = Some (xs ! i)"
  by (simp add: at_def index_def)

lemma at_map_nth: "i < length xs \<Longrightarrow> at (map g xs) (int i) = Some (g (xs ! i))"
  by (simp add: at_def index_def)

lemma root_file_child:
  "Parent c = Some p \<Longrightarrow> root_file c = (if kind p = FileKind then Some p else root_file p)"
  by (cases c) simp

lemma message_decl_of_child:
  "Parent c = Some p \<Longrightarrow>
   message_decl_of env c =
     (if kind p = FileKind then at (MessageType (ToFileDescriptorProto env p)) (Index c)
      else (case message_decl_of env p of
              None \<Rightarrow> None
            | Some md \<Rightarrow> at (NestedType md) (Index c)))"
  by (cases c) (auto split: option.splits)

lemma enum_decl_of_child:
  "Parent c = Some p \<Longrightarrow>
   enum_decl_of env c =
     (if kind p = FileKind then at (EnumType (ToFileDescriptorProto env p)) (Index c)
      else (case message_decl_of env p of
              None \<Rightarrow> None
            | Some md \<Rightarrow> at (NestedEnumType md) (Index c)))"
  by (cases c) (auto split: option.splits)

lemma declared_in_place:
  assumes k: "kind f = FileKind" and ch: "children_contract lib"
    and pc: "protodesc_contract env lib f"
  shows "declared_in lib f d \<Longrightarrow>
         root_file d = Some f \<and>
         (kind d = MessageKind \<or> kind d = EnumKind) \<and>
         (kind d = MessageKind \<longrightarrow> message_decl_of env d = Some (ToDescriptorProto lib d)) \<and>
         (kind d = EnumKind \<longrightarrow> enum_decl_of env d = Some (ToEnumDescriptorProto lib d))"
proof (induction rule: declared_in.induct)
  case (top_message c)
  then obtain i where i: "i < length (Messages lib f)" and c: "c = Messages lib f ! i"
    by (auto simp: in_set_conv_nth)
  have p: "Parent c = Some f" "Index c = int i" "kind c = MessageKind"
    using ch i c unfolding children_contract_def by auto
  have "message_decl_of env c = Some (ToDescriptorProto lib c)"
    using pc p k i c by (simp add: message_decl_of_child protodesc_contract_def at_map_nth)
  then show ?case using p k by (simp add: root_file_child)
next
  case (top_enum c)
  then obtain i where i: "i < length (Enums lib f)" and c: "c = Enums lib f ! i"
    by (auto simp: in_set_conv_nth)
  have p: "Parent c = Some f" "Index c = int i" "kind c = EnumKind"
    using ch i c unfolding children_contract_def by auto
  have "enum_decl_of env c = Some (ToEnumDescriptorProto lib c)"
    using pc p k i c by (simp add: enum_decl_of_child protodesc_contract_def at_map_nth)
  then show ?case using p k by (simp add: root_file_child)
next
  case (nested_message m c)
  then obtain i where i: "i < length (Messages lib m)" and c: "c = Messages lib m ! i"
    by (auto simp: in_set_conv_nth)
  have p: "Parent c = Some m" "Index c = int i" "kind c = MessageKind"
    using ch i c unfolding children_contract_def by auto
  have m: "root_file m = Some f" "message_decl_of env m = Some (ToDescriptorProto lib m)"
    using nested_message.IH nested_message.hyps(2) by simp_all
  have nested: "NestedType (ToDescriptorProto lib m) = map (ToDescriptorProto lib) (Messages lib m)"
    using pc nested_message.hyps(2) unfolding protodesc_contract_def by blast
  have "message_decl_of env c = Some (ToDescriptorProto lib c)"
    using p m nested i c nested_message.hyps(2)
    by (simp add: message_decl_of_child at_map_nth)
  then show ?case using p m nested_message.hyps(2) by (simp add: root_file_child)
next
  case (nested_enum m c)
  then obtain i where i: "i < length (Enums lib m)" and c: "c = Enums lib m ! i"
    by (auto simp: in_set_conv_nth)
  have p: "Parent c = Some m" "Index c = int i" "kind c = EnumKind"
    using ch i c unfolding children_contract_def by auto
  have m: "root_file m = Some f" "message_decl_of env m = Some (ToDescriptorProto lib m)"
    using nested_enum.IH nested_enum.hyps(2) by simp_all
  have nested: "NestedEnumType (ToDescriptorProto lib m) =
      map (ToEnumDescriptorProto lib) (Enums lib m)"
    using pc nested_enum.hyps(2) unfolding protodesc_contract_def by blast
  have "enum_decl_of env c = Some (ToEnumDescriptorProto lib c)"
    using p m nested i c nested_enum.hyps(2)
    by (simp add: enum_decl_of_child at_map_nth)
  then show ?case using p m nested_enum.hyps(2) by (simp add: root_file_child)
qed

lemma decode_of_library:
  assumes "gzip_NewReader env (CompressGZIP env b) = Inr zr"
    and "ReadAll env zr = Inr b"
    and "Unmarshal env b = Inr p"
  shows "decode env (CompressGZIP env b) = Inr p"
  using assms by (simp add: decode_def)

text \<open>
  C7. In every state that evolves from the empty caches with the buffers intact, for
  every message or enum reachable from a root file, given the contracts of the
  libraries (\<^verbatim>\<open>gzip.NewReader\<close> and \<^verbatim>\<open>ioutil.ReadAll\<close> give back the bytes that
  \<^verbatim>\<open>CompressGZIP\<close> compressed, \<^verbatim>\<open>proto.Unmarshal\<close> gives back the proto that
  \<^verbatim>\<open>proto.Marshal\<close> serialized, the compressed bytes are not empty; children know
  their parent and index; \<^verbatim>\<open>protodesc\<close> converts the tree in order and keeps the
  names): \<^verbatim>\<open>MessageDescriptorProto\<close> and \<^verbatim>\<open>EnumDescriptorProto\<close>, which derive the
  raw descriptor, decode it and navigate the index path, return the file's proto and
  the conversion of the very descriptor, a declaration of its name and of its kind.
\<close>

theorem round_trip:
  assumes reach: "evolves_intact env init_state s"
    and fk: "kind f = FileKind"
    and din: "declared_in lib f d"
    and ch: "children_contract lib"
    and pc: "protodesc_contract env lib f"
    and ne: "CompressGZIP env (Marshal env (ToFileDescriptorProto env f)) \<noteq> []"
    and gz: "gzip_NewReader env (CompressGZIP env (Marshal env (ToFileDescriptorProto env f))) =
               Inr zr"
    and rd: "ReadAll env zr = Inr (Marshal env (ToFileDescriptorProto env f))"
    and um: "Unmarshal env (Marshal env (ToFileDescriptorProto env f)) =
               Inr (ToFileDescriptorProto env f)"
    and acc: "accessor v = None"
  shows "(kind d = MessageKind \<longrightarrow> MessageTypeOf env v = d \<longrightarrow>
            (\<exists>md. fst (MessageDescriptorProto env v s) =
                     Inr (Some (ToFileDescriptorProto env f), Some md) \<and>
                   md = ToDescriptorProto lib d \<and> message_name md = Name d \<and>
                   decl_kind (MessageDeclaration md) = kind d)) \<and>
         (kind d = EnumKind \<longrightarrow> EnumTypeOf env v = d \<longrightarrow>
            (\<exists>ed. fst (EnumDescriptorProto env v s) =
                     Inr (Some (ToFileDescriptorProto env f), Some ed) \<and>
                   ed = ToEnumDescriptorProto lib d \<and> enum_name ed = Name d \<and>
                   decl_kind (EnumDeclaration ed) = kind d))"
proof (intro conjI impI)
  have inv: "raw_inv env s" using reach intact_evolves reachable_raw_inv by blast
  have finv: "file_inv env s" using reach by (rule reachable_file_inv)
  have ne': "derived env f \<noteq> []" using ne by (simp add: derived_def)
  have dec: "decode env (derived env f) = Inr (ToFileDescriptorProto env f)"
    unfolding derived_def using gz rd um by (rule decode_of_library)
  have place: "root_file d = Some f"
    "kind d = MessageKind \<longrightarrow> message_decl_of env d = Some (ToDescriptorProto lib d)"
    "kind d = EnumKind \<longrightarrow> enum_decl_of env d = Some (ToEnumDescriptorProto lib d)"
    using declared_in_place[OF fk ch pc din] by simp_all
  {
    assume k: "kind d = MessageKind" and reg: "MessageTypeOf env v = d"
    have md: "message_decl_of env d = Some (ToDescriptorProto lib d)" using place(2) k by simp
    have nm: "message_name (ToDescriptorProto lib d) = Name d"
      using pc k unfolding protodesc_contract_def by blast
    have "fst (MessageDescriptorProto env v s) =
            Inr (Some (ToFileDescriptorProto env f), Some (ToDescriptorProto lib d))"
      using MessageDescriptorProto_derived[OF inv finv place(1) ne' dec acc reg md] .
    then show "\<exists>md. fst (MessageDescriptorProto env v s) =
                     Inr (Some (ToFileDescriptorProto env f), Some md) \<and>
                   md = ToDescriptorProto lib d \<and> message_name md = Name d \<and>
                   decl_kind (MessageDeclaration md) = kind d"
      using nm k by simp
  }
  {
    assume k: "kind d = EnumKind" and reg: "EnumTypeOf env v = d"
    have ed: "enum_decl_of env d = Some (ToEnumDescriptorProto lib d)" using place(3) k by simp
    have nm: "enum_name (ToEnumDescriptorProto lib d) = Name d"
      using pc k unfolding protodesc_contract_def by blast
    have "fst (EnumDescriptorProto env v s) =
            Inr (Some (ToFileDescriptorProto env f), Some (ToEnumDescriptorProto lib d))"
      using EnumDescriptorProto_derived[OF inv finv place(1) ne' dec acc reg ed] .
    then show "\<exists>ed. fst (EnumDescriptorProto env v s) =
                     Inr (Some (ToFileDescriptorProto env f), Some ed) \<and>
                   ed = ToEnumDescriptorProto lib d \<and> enum_name ed = Name d \<and>
                   decl_kind (EnumDeclaration ed) = kind d"
      using nm k by simp
  }
qed

lemma demo_distinct:
  "demo_Foo \<noteq> demo_file" "demo_Bar \<noteq> demo_file" "demo_Bar \<noteq> demo_Foo"
  "demo_Color \<noteq> demo_Foo" "demo_Color \<noteq> demo_file" "demo_Top \<noteq> demo_Foo"
  "demo_Top \<noteq> demo_file"
  by (simp_all add: demo_file_def demo_Foo_def demo_Bar_def demo_Color_def demo_Top_def)

lemma demo_children: "children_contract demo_lib"
proof -
  have m: "Parent (Messages demo_lib p ! i) = Some p \<and>
      Index (Messages demo_lib p ! i) = int i \<and> kind (Messages demo_lib p ! i) = MessageKind"
    if "i < length (Messages demo_lib p)" for p i
    using that
    by (auto simp: demo_lib_def demo_Foo_def demo_Bar_def demo_file_def split: if_splits)
  have e: "Parent (Enums demo_lib p ! i) = Some p \<and>
      Index (Enums demo_lib p ! i) = int i \<and> kind (Enums demo_lib p ! i) = EnumKind"
    if "i < length (Enums demo_lib p)" for p i
    using that
    by (auto simp: demo_lib_def demo_Top_def demo_Color_def demo_Foo_def demo_file_def
        split: if_splits)
  show ?thesis
    unfolding children_contract_def using m e by blast
qed

lemma demo_protodesc: "protodesc_contract demo_env demo_lib demo_file"
proof -
  have top: "MessageType (ToFileDescriptorProto demo_env demo_file) =
        map (ToDescriptorProto demo_lib) (Messages demo_lib demo_file) \<and>
      EnumType (ToFileDescriptorProto demo_env demo_file) =
        map (ToEnumDescriptorProto demo_lib) (Enums demo_lib demo_file)"
    by (simp add: demo_env_def demo_lib_def demo_proto_def) (simp add: demo_Top_def)
  have msg: "message_name (ToDescriptorProto demo_lib m) = Name m \<and>
      NestedType (ToDescriptorProto demo_lib m) =
        map (ToDescriptorProto demo_lib) (Messages demo_lib m) \<and>
      NestedEnumType (ToDescriptorProto demo_lib m) =
        map (ToEnumDescriptorProto demo_lib) (Enums demo_lib m)"
    if "kind m = MessageKind" for m
  proof (cases "m = demo_Foo")
    case True
    then show ?thesis
      by (simp add: demo_lib_def demo_distinct) (simp add: demo_Foo_def demo_Bar_def demo_Color_def)
  next
    case False
    have "m \<noteq> demo_file" using that by (auto simp: demo_file_def)
    then show ?thesis using False by (simp add: demo_lib_def)
  qed
  have en: "enum_name (ToEnumDescriptorProto demo_lib e) = Name e" for e
    by (simp add: demo_lib_def)
  show ?thesis
    unfolding protodesc_contract_def using top msg en by blast
qed

lemma demo_declared:
  "declared_in demo_lib demo_file demo_Bar" "declared_in demo_lib demo_file demo_Color"
proof -
  have foo: "declared_in demo_lib demo_file demo_Foo"
    by (rule top_message) (simp add: demo_lib_def)
  have k: "kind demo_Foo = MessageKind" by (simp add: demo_Foo_def)
  show "declared_in demo_lib demo_file demo_Bar"
    using foo k by (rule nested_message) (simp add: demo_lib_def demo_distinct)
  show "declared_in demo_lib demo_file demo_Color"
    using foo k by (rule nested_enum) (simp add: demo_lib_def demo_distinct)
qed

theorem round_trip_witness:
  "evolves_intact demo_env init_state demo_state \<and> kind demo_file = FileKind \<and>
   declared_in demo_lib demo_file demo_Bar \<and> declared_in demo_lib demo_file demo_Color \<and>
   children_contract demo_lib \<and> protodesc_contract demo_env demo_lib demo_file \<and>
   CompressGZIP demo_env (Marshal demo_env (ToFileDescriptorProto demo_env demo_file)) \<noteq> [] \<and>
   gzip_NewReader demo_env
     (CompressGZIP demo_env (Marshal demo_env (ToFileDescriptorProto demo_env demo_file))) =
     Inr [10, 3] \<and>
   ReadAll demo_env [10, 3] = Inr (Marshal demo_env (ToFileDescriptorProto demo_env demo_file)) \<and>
   Unmarshal demo_env (Marshal demo_env (ToFileDescriptorProto demo_env demo_file)) =
     Inr (ToFileDescriptorProto demo_env demo_file) \<and>
   accessor (demo_plain 1) = None \<and>
   kind demo_Bar = MessageKind \<and> MessageTypeOf demo_env (demo_plain 1) = demo_Bar \<and>
   kind demo_Color = EnumKind \<and> EnumTypeOf demo_env (demo_plain 1) = demo_Color \<and>
   fst (MessageDescriptorProto demo_env (demo_plain 1) demo_state) =
     Inr (Some demo_proto, Some (MessageDecl ''Bar'' [] [])) \<and>
   message_name (MessageDecl ''Bar'' [] []) = Name demo_Bar \<and>
   fst (EnumDescriptorProto demo_env (demo_plain 1) demo_state) =
     Inr (Some demo_proto, Some (EnumDecl ''Color'')) \<and>
   enum_name (EnumDecl ''Color'') = Name demo_Color"
proof -
  have h1: "evolves_intact demo_env init_state demo_state" by (rule demo_state_intact)
  have h2: "kind demo_file = FileKind" by (simp add: demo_file_def)
  have h3: "declared_in demo_lib demo_file demo_Bar"
    and h3': "declared_in demo_lib demo_file demo_Color"
    by (rule demo_declared)+
  have h4: "children_contract demo_lib" by (rule demo_children)
  have h5: "protodesc_contract demo_env demo_lib demo_file" by (rule demo_protodesc)
  have h6: "CompressGZIP demo_env (Marshal demo_env (ToFileDescriptorProto demo_env demo_file))
      \<noteq> []"
    by (simp add: demo_env_def)
  have h7: "gzip_NewReader demo_env
     (CompressGZIP demo_env (Marshal demo_env (ToFileDescriptorProto demo_env demo_file))) =
     Inr [10, 3]"
    by (simp add: demo_env_def)
  have h8: "ReadAll demo_env [10, 3] =
      Inr (Marshal demo_env (ToFileDescriptorProto demo_env demo_file))"
    by (simp add: demo_env_def)
  have h9: "Unmarshal demo_env (Marshal demo_env (ToFileDescriptorProto demo_env demo_file)) =
     Inr (ToFileDescriptorProto demo_env demo_file)"
    by (simp add: demo_env_def)
  have h10: "accessor (demo_plain 1) = None" by (simp add: demo_plain_def)
  have h11: "kind demo_Bar = MessageKind \<and> MessageTypeOf demo_env (demo_plain 1) = demo_Bar \<and>
      kind demo_Color = EnumKind \<and> EnumTypeOf demo_env (demo_plain 1) = demo_Color"
    by (simp add: demo_Bar_def demo_Color_def demo_env_def demo_plain_def)
  have fd: "ToFileDescriptorProto demo_env demo_file = demo_proto" by (simp add: demo_env_def)
  have bar: "ToDescriptorProto demo_lib demo_Bar = MessageDecl ''Bar'' [] []"
    by (simp add: demo_lib_def demo_distinct) (simp add: demo_Bar_def)
  have color: "ToEnumDescriptorProto demo_lib demo_Color = EnumDecl ''Color''"
    by (simp add: demo_lib_def demo_Color_def)
  have m: "fst (MessageDescriptorProto demo_env (demo_plain 1) demo_state) =
     Inr (Some demo_proto, Some (MessageDecl ''Bar'' [] [])) \<and>
     message_name (MessageDecl ''Bar'' [] []) = Name demo_Bar"
    using round_trip [OF h1 h2 h3 h4 h5 h6 h7 h8 h9 h10] h11 fd bar by auto
  have e: "fst (EnumDescriptorProto demo_env (demo_plain 1) demo_state) =
     Inr (Some demo_proto, Some (EnumDecl ''Color'')) \<and>
     enum_name (EnumDecl ''Color'') = Name demo_Color"
    using round_trip [OF h1 h2 h3' h4 h5 h6 h7 h8 h9 h10] h11 fd color by auto
  show ?thesis
    using h1 h2 h3 h3' h4 h5 h6 h7 h8 h9 h10 h11 m e by simp
qed

end
